theory Spec2Isabelle
  imports Main "HOL-Library.Word"
begin

unbundle bit_operations_syntax

section \<open>The exec-tracing probe of TripWire (process.h, process.bpf.c)\<close>

text \<open>
  A shallow embedding of the two source files of the probe:
  \<^item> \<^verbatim>\<open>process.h\<close>: the record \<^verbatim>\<open>struct exec_event\<close> and its three length constants;
  \<^item> \<^verbatim>\<open>process.bpf.c\<close>: \<^verbatim>\<open>fill_argv\<close>, \<^verbatim>\<open>fill_event\<close> and the two tracepoint
    handlers \<^verbatim>\<open>trace_execve\<close> and \<^verbatim>\<open>trace_execveat\<close>.

  The program runs inside the kernel and talks to its surroundings only through BPF
  helpers. The helpers are not code of the repository; each one is modelled below by
  its behaviour in Linux, over an explicit user memory (a partial map from 64-bit
  addresses to bytes, an unmapped address being a fault) and an explicit task context.
  C's \<^verbatim>\<open>int\<close> values (\<^verbatim>\<open>pos\<close>, \<^verbatim>\<open>len\<close>, \<^verbatim>\<open>remaining\<close>, \<^verbatim>\<open>n\<close>) are HOL integers: with
  \<^verbatim>\<open>len = 256\<close> every value stays between \<open>-14\<close> and \<open>256\<close>, so no C arithmetic wraps.
  Buffers are byte lists, a destination pointer \<^verbatim>\<open>&buf[pos]\<close> is the pair of the list and
  the offset.
\<close>

type_synonym u8 = "8 word"
type_synonym u32 = "32 word"
type_synonym u64 = "64 word"
type_synonym addr = "64 word"
type_synonym user_mem = "addr \<Rightarrow> u8 option"

subsection \<open>process.h\<close>

definition TRIPWIRE_COMM_LEN :: nat where "TRIPWIRE_COMM_LEN = 16"
definition TRIPWIRE_PATH_LEN :: nat where "TRIPWIRE_PATH_LEN = 256"
definition TRIPWIRE_ARGV_LEN :: nat where "TRIPWIRE_ARGV_LEN = 256"

record exec_event =
  pid :: u32
  ppid :: u32
  uid :: u32
  gid :: u32
  comm :: "u8 list"
  filename :: "u8 list"
  argv :: "u8 list"

text \<open>A slot of the ring holds the three arrays at their declared sizes.\<close>

definition slot_ok :: "exec_event \<Rightarrow> bool" where
  "slot_ok e = (length (comm e) = TRIPWIRE_COMM_LEN \<and>
                length (filename e) = TRIPWIRE_PATH_LEN \<and>
                length (argv e) = TRIPWIRE_ARGV_LEN)"

text \<open>
  The layout of a C struct under the ABI of the BPF target (and of x86-64): each member
  sits at the next multiple of its alignment, and the struct's size is rounded up to
  its largest alignment. \<^verbatim>\<open>__u32\<close> has size and alignment 4, \<^verbatim>\<open>char\<close> has size and
  alignment 1, an array has its element's alignment.
\<close>

datatype ctype = U32 | Char | Array ctype nat

fun sizeof :: "ctype \<Rightarrow> nat" where
  "sizeof U32 = 4"
| "sizeof Char = 1"
| "sizeof (Array t n) = n * sizeof t"

fun alignof :: "ctype \<Rightarrow> nat" where
  "alignof U32 = 4"
| "alignof Char = 1"
| "alignof (Array t n) = alignof t"

definition align_up :: "nat \<Rightarrow> nat \<Rightarrow> nat" where
  "align_up off a = ((off + a - 1) div a) * a"

text \<open>The members of a struct, each with its first and its last byte offset.\<close>

fun member_extents :: "nat \<Rightarrow> (string \<times> ctype) list \<Rightarrow> (string \<times> nat \<times> nat) list" where
  "member_extents off [] = []"
| "member_extents off ((name, t) # ms) =
     (let start = align_up off (alignof t)
      in (name, start, start + sizeof t - 1) # member_extents (start + sizeof t) ms)"

fun members_end :: "nat \<Rightarrow> (string \<times> ctype) list \<Rightarrow> nat" where
  "members_end off [] = off"
| "members_end off ((name, t) # ms) = members_end (align_up off (alignof t) + sizeof t) ms"

definition struct_align :: "(string \<times> ctype) list \<Rightarrow> nat" where
  "struct_align ms = fold max (map (alignof \<circ> snd) ms) 1"

definition struct_size :: "(string \<times> ctype) list \<Rightarrow> nat" where
  "struct_size ms = align_up (members_end 0 ms) (struct_align ms)"

definition exec_event_members :: "(string \<times> ctype) list" where
  "exec_event_members =
     [(''pid'', U32), (''ppid'', U32), (''uid'', U32), (''gid'', U32),
      (''comm'', Array Char TRIPWIRE_COMM_LEN),
      (''filename'', Array Char TRIPWIRE_PATH_LEN),
      (''argv'', Array Char TRIPWIRE_ARGV_LEN)]"

subsection \<open>The kernel helpers\<close>

text \<open>
  The helpers are functions of the Linux kernel, not of the repository. Each is modelled
  from its documentation in the kernel's \<^verbatim>\<open>include/uapi/linux/bpf.h\<close> and, where that is silent
  (what a faulting read leaves in its destination), from its implementation in
  \<^verbatim>\<open>kernel/trace/bpf_trace.c\<close> and \<^verbatim>\<open>mm/maccess.c\<close>. The specification describes the string
  helper in the same way: it returns the number of bytes written, the NUL included, on
  success, and an error indicator that is not positive otherwise.
\<close>

definition EFAULT :: int where "EFAULT = 14"

text \<open>
  \<^verbatim>\<open>copy_from_user_nofault\<close>: all \<open>n\<close> bytes from \<open>src\<close> on, or a fault.
\<close>

fun copy_from_user :: "user_mem \<Rightarrow> addr \<Rightarrow> nat \<Rightarrow> u8 list option" where
  "copy_from_user mem src 0 = Some []"
| "copy_from_user mem src (Suc n) =
     (case mem src of
        None \<Rightarrow> None
      | Some b \<Rightarrow> map_option ((#) b) (copy_from_user mem (src + 1) n))"

text \<open>
  \<^verbatim>\<open>bpf_probe_read_user(dst, size, src)\<close>: returns 0 and the bytes read; on a fault it
  returns \<^verbatim>\<open>-EFAULT\<close> and zero-fills the destination. The result is the return value and
  the new content of the \<open>size\<close> bytes at \<open>dst\<close>.
\<close>

definition bpf_probe_read_user :: "user_mem \<Rightarrow> nat \<Rightarrow> addr \<Rightarrow> int \<times> u8 list" where
  "bpf_probe_read_user mem sz src =
     (case copy_from_user mem src sz of
        None \<Rightarrow> (- EFAULT, replicate sz 0)
      | Some bs \<Rightarrow> (0, bs))"

text \<open>A pointer variable read back from its eight bytes (the target is little-endian).\<close>

fun le_u64 :: "u8 list \<Rightarrow> u64" where
  "le_u64 [] = 0"
| "le_u64 (b # bs) = ucast b OR push_bit 8 (le_u64 bs)"

text \<open>
  \<^verbatim>\<open>do_strncpy_from_user(dst, src, count, max)\<close> of \<^verbatim>\<open>lib/strncpy_from_user.c\<close>, on a
  target with efficient unaligned access (x86-64, the architecture of the build
  instructions). The result is the return value \<^verbatim>\<open>res\<close> and the bytes stored from
  \<^verbatim>\<open>dst[0]\<close> on, or a fault (\<^verbatim>\<open>-EFAULT\<close>).

  The tail loop copies byte by byte and stops behind the first NUL, or when \<open>lim\<close> bytes
  are copied.
\<close>

fun byte_at_a_time :: "user_mem \<Rightarrow> addr \<Rightarrow> nat \<Rightarrow> (nat \<times> u8 list) option" where
  "byte_at_a_time mem src 0 = Some (0, [])"
| "byte_at_a_time mem src (Suc lim) =
     (case mem src of
        None \<Rightarrow> None
      | Some c \<Rightarrow>
          if c = 0 then Some (0, [0])
          else map_option (\<lambda>(res, bs). (Suc res, c # bs)) (byte_at_a_time mem (src + 1) lim))"

text \<open>
  The main loop copies words of eight bytes while eight bytes are left. A word that holds
  a NUL is stored with every byte behind the NUL masked to zero, and the copy ends there;
  a word that cannot be read (it reaches into unmapped memory) sends the copy to the
  byte loop.
\<close>

function do_strncpy_from_user :: "user_mem \<Rightarrow> addr \<Rightarrow> nat \<Rightarrow> (nat \<times> u8 list) option" where
  "do_strncpy_from_user mem src lim =
     (if 8 \<le> lim then
        (case copy_from_user mem src 8 of
           None \<Rightarrow> byte_at_a_time mem src lim
         | Some w \<Rightarrow>
             if 0 \<in> set w
             then let k = length (takeWhile (\<lambda>c. c \<noteq> 0) w)
                  in Some (k, take k w @ replicate (8 - k) 0)
             else map_option (\<lambda>(res, bs). (8 + res, w @ bs))
                    (do_strncpy_from_user mem (src + 8) (lim - 8)))
      else byte_at_a_time mem src lim)"
  by pat_completeness auto
termination
  by (relation "measure (\<lambda>(mem, src, lim). lim)") auto

declare do_strncpy_from_user.simps [simp del]

text \<open>
  \<^verbatim>\<open>strncpy_from_user(dst, src, count)\<close>: the length of the string when its NUL is among
  the first \<open>count\<close> bytes, \<open>count\<close> when it is not. (The limit of the user address space
  is part of the user memory here: an address beyond it is unmapped.)
\<close>

definition strncpy_from_user :: "user_mem \<Rightarrow> addr \<Rightarrow> nat \<Rightarrow> (nat \<times> u8 list) option" where
  "strncpy_from_user mem src count =
     (if count = 0 then Some (0, []) else do_strncpy_from_user mem src count)"

text \<open>Storing the bytes \<open>bs\<close> into a buffer from offset \<open>off\<close> on.\<close>

definition write_bytes :: "u8 list \<Rightarrow> nat \<Rightarrow> u8 list \<Rightarrow> u8 list" where
  "write_bytes buf off bs = take off buf @ bs @ drop (off + length bs) buf"

text \<open>
  \<^verbatim>\<open>bpf_probe_read_user_str(&buf[off], size, src)\<close>, as the helper's documentation,
  \<^verbatim>\<open>strncpy_from_user_nofault\<close> and \<^verbatim>\<open>bpf_probe_read_user_str_common\<close> have it:
  \<^item> a string shorter than \<open>size\<close> is copied with its NUL, and the return value is its
    length plus one; behind the NUL only the rest of the last word copied is zeroed (at
    most seven bytes), nothing is padded up to \<open>size\<close>;
  \<^item> of a longer string \<open>size - 1\<close> bytes are copied, the last byte of the window is set
    to NUL, and \<open>size\<close> is returned;
  \<^item> on a fault the helper returns \<^verbatim>\<open>-EFAULT\<close> and zero-fills the \<open>size\<close> bytes of the
    window (\<^verbatim>\<open>memset(dst, 0, size)\<close>);
  \<^item> with \<open>size = 0\<close> it returns 0 and writes nothing.
\<close>

definition bpf_probe_read_user_str ::
    "user_mem \<Rightarrow> u8 list \<Rightarrow> nat \<Rightarrow> nat \<Rightarrow> addr \<Rightarrow> int \<times> u8 list" where
  "bpf_probe_read_user_str mem buf off sz src =
     (if sz = 0 then (0, buf)
      else case strncpy_from_user mem src sz of
        None \<Rightarrow> (- EFAULT, write_bytes buf off (replicate sz 0))
      | Some (ret, bs) \<Rightarrow>
          if sz \<le> ret
          then (int sz, write_bytes buf off (take (sz - 1) bs @ [0]))
          else (int ret + 1, write_bytes buf off bs))"

text \<open>
  What the task-context helpers return in one invocation of a handler (the parent's
  \<^verbatim>\<open>tgid\<close> already as the \<^verbatim>\<open>__u32\<close> the source casts it to), the user memory
  of the calling process, and what \<^verbatim>\<open>bpf_ringbuf_reserve\<close> returns: \<open>None\<close> is the null
  pointer, \<open>Some e\<close> a slot whose bytes are whatever the ring held there before.
\<close>

record kernel =
  current_pid_tgid :: u64
  current_uid_gid :: u64
  real_parent_tgid :: u32
  task_comm :: "u8 list"
  umem :: user_mem
  ring_slot :: "exec_event option"

definition bpf_get_current_pid_tgid :: "kernel \<Rightarrow> u64" where
  "bpf_get_current_pid_tgid k = current_pid_tgid k"

definition bpf_get_current_uid_gid :: "kernel \<Rightarrow> u64" where
  "bpf_get_current_uid_gid k = current_uid_gid k"

text \<open>
  \<^verbatim>\<open>bpf_get_current_comm(buf, size)\<close> copies the task name with \<^verbatim>\<open>strscpy_pad\<close>: at most
  \<open>size - 1\<close> bytes of the name, then NUL bytes up to \<open>size\<close>.
\<close>

definition bpf_get_current_comm :: "kernel \<Rightarrow> nat \<Rightarrow> u8 list" where
  "bpf_get_current_comm k sz =
     (let s = take (sz - 1) (takeWhile (\<lambda>c. c \<noteq> 0) (task_comm k))
      in s @ replicate (sz - length s) 0)"

definition bpf_ringbuf_reserve :: "kernel \<Rightarrow> exec_event option" where
  "bpf_ringbuf_reserve k = ring_slot k"

text \<open>The ring as the consumer sees it: the records submitted so far, oldest first.\<close>

definition bpf_ringbuf_submit :: "exec_event \<Rightarrow> exec_event list \<Rightarrow> exec_event list" where
  "bpf_ringbuf_submit e ring = ring @ [e]"

subsection \<open>process.bpf.c: fill_argv\<close>

definition MAX_ARGS :: nat where "MAX_ARGS = 16"

datatype 'a iter = Break 'a | Continue 'a

text \<open>
  The value of \<^verbatim>\<open>arg\<close> after \<^verbatim>\<open>bpf_probe_read_user(&arg, sizeof(arg), &argv_ptr[i])\<close>:
  \<^verbatim>\<open>&argv_ptr[i]\<close> is \<open>argv_ptr + 8 * i\<close>, and the return value of the helper is
  ignored, as in the source (after a fault the helper has zero-filled \<^verbatim>\<open>arg\<close>).
\<close>

definition read_arg :: "user_mem \<Rightarrow> addr \<Rightarrow> nat \<Rightarrow> addr" where
  "read_arg mem argv_ptr i =
     le_u64 (snd (bpf_probe_read_user mem 8 (argv_ptr + 8 * of_nat i)))"

text \<open>
  One pass through the body of the loop, at index \<open>i\<close> with buffer \<open>buf\<close> and cursor
  \<open>pos\<close>.
\<close>

definition fill_argv_body ::
    "user_mem \<Rightarrow> addr \<Rightarrow> int \<Rightarrow> nat \<Rightarrow> u8 list \<Rightarrow> int \<Rightarrow> (u8 list \<times> int) iter" where
  "fill_argv_body mem argv_ptr len i buf pos =
     (let arg = read_arg mem argv_ptr i
      in if arg = 0 then Break (buf, pos)
         else
           let (buf1, pos1) =
                 (if 0 < i \<and> pos < len - 1 then (buf[nat pos := 0x20], pos + 1)
                  else (buf, pos));
               remaining = len - pos1 - 1
           in if remaining \<le> 0 then Break (buf1, pos1)
              else
                let (n, buf2) = bpf_probe_read_user_str mem buf1 (nat pos1) (nat remaining) arg
                in Continue (buf2, if 0 < n then pos1 + (n - 1) else pos1))"

text \<open>
  The loop \<^verbatim>\<open>for (i = 0; i < MAX_ARGS && pos < len - 1; i++)\<close>; the result is the state
  in which the loop is left: the index it stopped at, the buffer and the cursor.
\<close>

function fill_argv_loop ::
    "user_mem \<Rightarrow> addr \<Rightarrow> int \<Rightarrow> nat \<Rightarrow> u8 list \<Rightarrow> int \<Rightarrow> nat \<times> u8 list \<times> int" where
  "fill_argv_loop mem argv_ptr len i buf pos =
     (if i < MAX_ARGS \<and> pos < len - 1 then
        (case fill_argv_body mem argv_ptr len i buf pos of
           Break (buf', pos') \<Rightarrow> (i, buf', pos')
         | Continue (buf', pos') \<Rightarrow> fill_argv_loop mem argv_ptr len (Suc i) buf' pos')
      else (i, buf, pos))"
  by pat_completeness auto
termination
  by (relation "measure (\<lambda>(mem, argv_ptr, len, i, buf, pos). MAX_ARGS - i)") auto

declare fill_argv_loop.simps [simp del]

definition fill_argv :: "user_mem \<Rightarrow> u8 list \<Rightarrow> int \<Rightarrow> addr \<Rightarrow> u8 list" where
  "fill_argv mem buf len argv_ptr =
     (let (i, buf', pos) = fill_argv_loop mem argv_ptr len 0 buf 0
      in if pos < len then buf'[nat pos := 0] else buf')"

subsection \<open>process.bpf.c: fill_event and the handlers\<close>

definition fill_event :: "kernel \<Rightarrow> exec_event \<Rightarrow> addr \<Rightarrow> addr \<Rightarrow> exec_event" where
  "fill_event k e filename_ptr argv_ptr =
     (let pid_tgid = bpf_get_current_pid_tgid k;
          uid_gid = bpf_get_current_uid_gid k;
          e1 = e\<lparr>pid := ucast (drop_bit 32 pid_tgid)\<rparr>;
          e2 = e1\<lparr>uid := ucast (uid_gid AND 0xFFFFFFFF)\<rparr>;
          e3 = e2\<lparr>gid := ucast (drop_bit 32 uid_gid)\<rparr>;
          e4 = e3\<lparr>ppid := real_parent_tgid k\<rparr>;
          e5 = e4\<lparr>comm := bpf_get_current_comm k TRIPWIRE_COMM_LEN\<rparr>;
          e6 = e5\<lparr>filename :=
                 snd (bpf_probe_read_user_str (umem k) (filename e5) 0
                        TRIPWIRE_PATH_LEN filename_ptr)\<rparr>
      in e6\<lparr>argv := fill_argv (umem k) (argv e6) (int TRIPWIRE_ARGV_LEN) argv_ptr\<rparr>)"

text \<open>\<^verbatim>\<open>struct trace_event_raw_sys_enter\<close>: the six syscall arguments \<^verbatim>\<open>ctx->args\<close>.\<close>

record trace_event_raw_sys_enter =
  args :: "u64 list"

definition trace_execve ::
    "kernel \<Rightarrow> trace_event_raw_sys_enter \<Rightarrow> exec_event list \<Rightarrow> int \<times> exec_event list" where
  "trace_execve k ctx ring =
     (case bpf_ringbuf_reserve k of
        None \<Rightarrow> (0, ring)
      | Some e \<Rightarrow>
          (0, bpf_ringbuf_submit (fill_event k e (args ctx ! 0) (args ctx ! 1)) ring))"

definition trace_execveat ::
    "kernel \<Rightarrow> trace_event_raw_sys_enter \<Rightarrow> exec_event list \<Rightarrow> int \<times> exec_event list" where
  "trace_execveat k ctx ring =
     (case bpf_ringbuf_reserve k of
        None \<Rightarrow> (0, ring)
      | Some e \<Rightarrow>
          (0, bpf_ringbuf_submit (fill_event k e (args ctx ! 1) (args ctx ! 2)) ring))"

subsection \<open>Notions used in the statements\<close>

text \<open>The C string held by a byte array: the bytes before its first NUL.\<close>

definition c_string :: "u8 list \<Rightarrow> u8 list" where
  "c_string bs = takeWhile (\<lambda>c. c \<noteq> 0) bs"

text \<open>
  User memory holds the NUL-terminated string \<open>s\<close> at address \<open>p\<close>: the bytes of \<open>s\<close>,
  none of them NUL, are mapped from \<open>p\<close> on and a NUL follows them.
\<close>

fun user_cstr :: "user_mem \<Rightarrow> addr \<Rightarrow> u8 list \<Rightarrow> bool" where
  "user_cstr mem p [] = (mem p = Some 0)"
| "user_cstr mem p (c # cs) = (c \<noteq> 0 \<and> mem p = Some c \<and> user_cstr mem (p + 1) cs)"

text \<open>
  The slots \<open>i, i + 1, ...\<close> of the array at \<open>argv_ptr\<close> hold non-null pointers to the
  strings \<open>ss\<close>, in this order.
\<close>

fun user_argv :: "user_mem \<Rightarrow> addr \<Rightarrow> nat \<Rightarrow> u8 list list \<Rightarrow> bool" where
  "user_argv mem argv_ptr i [] = True"
| "user_argv mem argv_ptr i (s # ss) =
     (read_arg mem argv_ptr i \<noteq> 0 \<and> user_cstr mem (read_arg mem argv_ptr i) s \<and>
      user_argv mem argv_ptr (Suc i) ss)"

text \<open>The arguments joined by single spaces, as the specification words the result.\<close>

fun join_args :: "u8 list list \<Rightarrow> u8 list" where
  "join_args [] = []"
| "join_args [s] = s"
| "join_args (s # t # ss) = s @ 0x20 # join_args (t # ss)"

text \<open>
  The rings the two handlers can produce from the empty ring, whatever the kernel state
  of each invocation is, as long as a reserved slot has the size of the record.
\<close>

inductive reachable :: "exec_event list \<Rightarrow> bool" where
  empty: "reachable []"
| execve:
    "reachable ring \<Longrightarrow> (\<forall>e. bpf_ringbuf_reserve k = Some e \<longrightarrow> slot_ok e) \<Longrightarrow>
     reachable (snd (trace_execve k ctx ring))"
| execveat:
    "reachable ring \<Longrightarrow> (\<forall>e. bpf_ringbuf_reserve k = Some e \<longrightarrow> slot_ok e) \<Longrightarrow>
     reachable (snd (trace_execveat k ctx ring))"

text \<open>
  The string user memory holds at \<open>src\<close>, read byte by byte: the bytes before the first
  NUL among the first \<open>count\<close> bytes (all \<open>count\<close> bytes when none is NUL), or a fault.
\<close>

fun user_string :: "user_mem \<Rightarrow> addr \<Rightarrow> nat \<Rightarrow> u8 list option" where
  "user_string mem src 0 = Some []"
| "user_string mem src (Suc count) =
     (case mem src of
        None \<Rightarrow> None
      | Some c \<Rightarrow>
          if c = 0 then Some []
          else map_option ((#) c) (user_string mem (src + 1) count))"

text \<open>
  The bytes \<^verbatim>\<open>bpf_probe_read_user_str\<close> copies in front of the NUL it writes, when the
  read does not fault, and the bytes it stores from that NUL on: the NUL and the zeroed
  rest of the last word.
\<close>

definition str_read :: "user_mem \<Rightarrow> nat \<Rightarrow> addr \<Rightarrow> u8 list option" where
  "str_read mem sz src =
     map_option (\<lambda>cs. if sz \<le> length cs then take (sz - 1) cs else cs)
       (user_string mem src sz)"

definition str_tail :: "user_mem \<Rightarrow> nat \<Rightarrow> addr \<Rightarrow> u8 list" where
  "str_tail mem sz src =
     (case strncpy_from_user mem src sz of
        None \<Rightarrow> [0]
      | Some (ret, bs) \<Rightarrow> if sz \<le> ret then [0] else drop ret bs)"

text \<open>
  The invariant of the loop of \<^verbatim>\<open>fill_argv\<close>: the cursor stays inside the buffer, one
  byte before its end at most, and no NUL stands in front of the cursor.
\<close>

definition argv_inv :: "int \<Rightarrow> u8 list \<Rightarrow> int \<Rightarrow> bool" where
  "argv_inv len buf pos =
     (len \<le> int (length buf) \<and> 0 \<le> pos \<and> pos \<le> len - 1 \<and>
      0 \<notin> set (take (nat pos) buf))"

subsection \<open>Concrete inputs\<close>

text \<open>A user memory given by its mapped segments; every other address faults.\<close>

fun mem_of :: "(addr \<times> u8 list) list \<Rightarrow> user_mem" where
  "mem_of [] a = None"
| "mem_of ((base, bs) # segs) a =
     (if unat (a - base) < length bs then Some (bs ! unat (a - base)) else mem_of segs a)"

definition bytes_of :: "string \<Rightarrow> u8 list" where
  "bytes_of s = map of_char s"

text \<open>A slot as the ring hands it out, still holding old bytes (\<open>c\<close> everywhere).\<close>

definition stale_slot :: "u8 \<Rightarrow> exec_event" where
  "stale_slot c =
     \<lparr>pid = 0xAAAAAAAA, ppid = 0xAAAAAAAA, uid = 0xAAAAAAAA, gid = 0xAAAAAAAA,
      comm = replicate 16 c, filename = replicate 256 c, argv = replicate 256 c\<rparr>"

definition kernel_on :: "user_mem \<Rightarrow> exec_event option \<Rightarrow> kernel" where
  "kernel_on mem slot =
     \<lparr>current_pid_tgid = 0x000004D2000004D2, current_uid_gid = 0x000003E8000003E8,
      real_parent_tgid = 1, task_comm = bytes_of ''bash'' @ replicate 12 0,
      umem = mem, ring_slot = slot\<rparr>"

definition sys_enter :: "u64 list \<Rightarrow> trace_event_raw_sys_enter" where
  "sys_enter xs = \<lparr>args = xs\<rparr>"

text \<open>
  The program \<^verbatim>\<open>/bin/ls\<close> with arguments \<^verbatim>\<open>ls\<close>, \<^verbatim>\<open>-la\<close>, \<^verbatim>\<open>/tmp\<close>: the pointer array at
  \<open>0x1000\<close>, the path at \<open>0x3000\<close>, and a second path \<^verbatim>\<open>./prog\<close> at \<open>0x3010\<close>.
\<close>

definition mem_ls :: user_mem where
  "mem_ls = mem_of
     [(0x1000,
        [0x0, 0x20, 0x0, 0x0, 0x0, 0x0, 0x0, 0x0] @
        [0x10, 0x20, 0x0, 0x0, 0x0, 0x0, 0x0, 0x0] @
        [0x20, 0x20, 0x0, 0x0, 0x0, 0x0, 0x0, 0x0] @
        [0x0, 0x0, 0x0, 0x0, 0x0, 0x0, 0x0, 0x0]),
      (0x2000, bytes_of ''ls'' @ [0]), (0x2010, bytes_of ''-la'' @ [0]),
      (0x2020, bytes_of ''/tmp'' @ [0]),
      (0x3000, bytes_of ''/bin/ls'' @ [0]), (0x3010, bytes_of ''./prog'' @ [0])]"

text \<open>An empty argument array: its first slot holds the null pointer.\<close>

definition mem_no_args :: user_mem where
  "mem_no_args = mem_of [(0x1000, [0x0, 0x0, 0x0, 0x0, 0x0, 0x0, 0x0, 0x0])]"

text \<open>
  Three arguments, \<^verbatim>\<open>a\<close>, a pointer into unmapped memory (\<open>0x9000\<close>), and \<^verbatim>\<open>b\<close>.
\<close>

definition mem_fault_mid :: user_mem where
  "mem_fault_mid = mem_of
     [(0x1000,
        [0x0, 0x20, 0x0, 0x0, 0x0, 0x0, 0x0, 0x0] @
        [0x0, 0x90, 0x0, 0x0, 0x0, 0x0, 0x0, 0x0] @
        [0x10, 0x20, 0x0, 0x0, 0x0, 0x0, 0x0, 0x0] @
        [0x0, 0x0, 0x0, 0x0, 0x0, 0x0, 0x0, 0x0]),
      (0x2000, bytes_of ''a'' @ [0]), (0x2010, bytes_of ''b'' @ [0])]"


text \<open>A single argument of 300 bytes (\<open>0x41\<close>, the letter A).\<close>

definition mem_long :: user_mem where
  "mem_long = mem_of
     [(0x2000, replicate 300 0x41 @ [0]),
      (0x1000, [0x0, 0x20, 0x0, 0x0, 0x0, 0x0, 0x0, 0x0] @
               [0x0, 0x0, 0x0, 0x0, 0x0, 0x0, 0x0, 0x0])]"

text \<open>Seventeen arguments \<^verbatim>\<open>a0\<close>, ..., \<^verbatim>\<open>a16\<close>.\<close>

definition args_seventeen :: "u8 list list" where
  "args_seventeen =
     [bytes_of ''a0'', bytes_of ''a1'', bytes_of ''a2'', bytes_of ''a3'',
      bytes_of ''a4'', bytes_of ''a5'', bytes_of ''a6'', bytes_of ''a7'',
      bytes_of ''a8'', bytes_of ''a9'', bytes_of ''a10'', bytes_of ''a11'',
      bytes_of ''a12'', bytes_of ''a13'', bytes_of ''a14'', bytes_of ''a15'',
      bytes_of ''a16'']"

definition mem_seventeen :: user_mem where
  "mem_seventeen = mem_of
     [(0x1000,
        [0x0, 0x20, 0x0, 0x0, 0x0, 0x0, 0x0, 0x0] @
        [0x10, 0x20, 0x0, 0x0, 0x0, 0x0, 0x0, 0x0] @
        [0x20, 0x20, 0x0, 0x0, 0x0, 0x0, 0x0, 0x0] @
        [0x30, 0x20, 0x0, 0x0, 0x0, 0x0, 0x0, 0x0] @
        [0x40, 0x20, 0x0, 0x0, 0x0, 0x0, 0x0, 0x0] @
        [0x50, 0x20, 0x0, 0x0, 0x0, 0x0, 0x0, 0x0] @
        [0x60, 0x20, 0x0, 0x0, 0x0, 0x0, 0x0, 0x0] @
        [0x70, 0x20, 0x0, 0x0, 0x0, 0x0, 0x0, 0x0] @
        [0x80, 0x20, 0x0, 0x0, 0x0, 0x0, 0x0, 0x0] @
        [0x90, 0x20, 0x0, 0x0, 0x0, 0x0, 0x0, 0x0] @
        [0xa0, 0x20, 0x0, 0x0, 0x0, 0x0, 0x0, 0x0] @
        [0xb0, 0x20, 0x0, 0x0, 0x0, 0x0, 0x0, 0x0] @
        [0xc0, 0x20, 0x0, 0x0, 0x0, 0x0, 0x0, 0x0] @
        [0xd0, 0x20, 0x0, 0x0, 0x0, 0x0, 0x0, 0x0] @
        [0xe0, 0x20, 0x0, 0x0, 0x0, 0x0, 0x0, 0x0] @
        [0xf0, 0x20, 0x0, 0x0, 0x0, 0x0, 0x0, 0x0] @
        [0x0, 0x21, 0x0, 0x0, 0x0, 0x0, 0x0, 0x0] @
        [0x0, 0x0, 0x0, 0x0, 0x0, 0x0, 0x0, 0x0]),
      (0x2000, bytes_of ''a0'' @ [0]), (0x2010, bytes_of ''a1'' @ [0]),
      (0x2020, bytes_of ''a2'' @ [0]), (0x2030, bytes_of ''a3'' @ [0]),
      (0x2040, bytes_of ''a4'' @ [0]), (0x2050, bytes_of ''a5'' @ [0]),
      (0x2060, bytes_of ''a6'' @ [0]), (0x2070, bytes_of ''a7'' @ [0]),
      (0x2080, bytes_of ''a8'' @ [0]), (0x2090, bytes_of ''a9'' @ [0]),
      (0x20a0, bytes_of ''a10'' @ [0]), (0x20b0, bytes_of ''a11'' @ [0]),
      (0x20c0, bytes_of ''a12'' @ [0]), (0x20d0, bytes_of ''a13'' @ [0]),
      (0x20e0, bytes_of ''a14'' @ [0]), (0x20f0, bytes_of ''a15'' @ [0]),
      (0x2100, bytes_of ''a16'' @ [0])]"

text \<open>
  Page 0 mapped: address 0 holds an argument array with the one argument \<^verbatim>\<open>x\<close>.
\<close>

definition mem_null_mapped :: user_mem where
  "mem_null_mapped = mem_of
     [(0, [0x0, 0x20, 0x0, 0x0, 0x0, 0x0, 0x0, 0x0] @
          [0x0, 0x0, 0x0, 0x0, 0x0, 0x0, 0x0, 0x0]),
      (0x2000, bytes_of ''x'' @ [0])]"


text \<open>
  Seventeen arguments whose first sixteen, joined by spaces, take exactly 255 bytes:
  fifteen times \<^verbatim>\<open>a\<close>, then 225 bytes (the letter x), then \<^verbatim>\<open>b\<close>.
\<close>

definition args_exact :: "u8 list list" where
  "args_exact =
     [[0x61], [0x61], [0x61], [0x61], [0x61], [0x61], [0x61], [0x61],
      [0x61], [0x61], [0x61], [0x61], [0x61], [0x61], [0x61],
      replicate 225 0x78, [0x62]]"

definition mem_exact :: user_mem where
  "mem_exact = mem_of
     [(0x4000, replicate 225 0x78 @ [0]),
      (0x1000,
        [0x0, 0x20, 0x0, 0x0, 0x0, 0x0, 0x0, 0x0] @
        [0x0, 0x20, 0x0, 0x0, 0x0, 0x0, 0x0, 0x0] @
        [0x0, 0x20, 0x0, 0x0, 0x0, 0x0, 0x0, 0x0] @
        [0x0, 0x20, 0x0, 0x0, 0x0, 0x0, 0x0, 0x0] @
        [0x0, 0x20, 0x0, 0x0, 0x0, 0x0, 0x0, 0x0] @
        [0x0, 0x20, 0x0, 0x0, 0x0, 0x0, 0x0, 0x0] @
        [0x0, 0x20, 0x0, 0x0, 0x0, 0x0, 0x0, 0x0] @
        [0x0, 0x20, 0x0, 0x0, 0x0, 0x0, 0x0, 0x0] @
        [0x0, 0x20, 0x0, 0x0, 0x0, 0x0, 0x0, 0x0] @
        [0x0, 0x20, 0x0, 0x0, 0x0, 0x0, 0x0, 0x0] @
        [0x0, 0x20, 0x0, 0x0, 0x0, 0x0, 0x0, 0x0] @
        [0x0, 0x20, 0x0, 0x0, 0x0, 0x0, 0x0, 0x0] @
        [0x0, 0x20, 0x0, 0x0, 0x0, 0x0, 0x0, 0x0] @
        [0x0, 0x20, 0x0, 0x0, 0x0, 0x0, 0x0, 0x0] @
        [0x0, 0x20, 0x0, 0x0, 0x0, 0x0, 0x0, 0x0] @
        [0x0, 0x40, 0x0, 0x0, 0x0, 0x0, 0x0, 0x0] @
        [0x10, 0x20, 0x0, 0x0, 0x0, 0x0, 0x0, 0x0] @
        [0x0, 0x0, 0x0, 0x0, 0x0, 0x0, 0x0, 0x0]),
      (0x2000, bytes_of ''a'' @ [0]), (0x2010, bytes_of ''b'' @ [0])]"

declare mem_of.simps [simp del]

section \<open>Lemmas\<close>

subsection \<open>Buffers and the string helper\<close>

lemma length_write_bytes:
  "off + length bs \<le> length buf \<Longrightarrow> length (write_bytes buf off bs) = length buf"
  by (simp add: write_bytes_def)

lemma take_write_bytes:
  "off \<le> length buf \<Longrightarrow> k \<le> length bs \<Longrightarrow>
   take (off + k) (write_bytes buf off bs) = take off buf @ take k bs"
  by (simp add: write_bytes_def)

lemma nth_write_bytes:
  "off \<le> length buf \<Longrightarrow> off \<le> k \<Longrightarrow> k < off + length bs \<Longrightarrow>
   write_bytes buf off bs ! k = bs ! (k - off)"
  by (auto simp: write_bytes_def nth_append)

lemma user_string_length:
  "user_string mem src n = Some cs \<Longrightarrow> length cs \<le> n"
  by (induction mem src n arbitrary: cs rule: user_string.induct)
     (auto split: option.splits if_splits)

lemma user_string_no_nul:
  "user_string mem src n = Some cs \<Longrightarrow> 0 \<notin> set cs"
  by (induction mem src n arbitrary: cs rule: user_string.induct)
     (auto split: option.splits if_splits)

lemma copy_from_user_length: "copy_from_user mem src n = Some w \<Longrightarrow> length w = n"
  by (induction n arbitrary: src w) (auto split: option.splits)

lemma takeWhile_short: "x \<in> set xs \<Longrightarrow> \<not> P x \<Longrightarrow> length (takeWhile P xs) < length xs"
  by (induction xs) auto

lemma byte_at_a_time_eq:
  "byte_at_a_time mem src lim =
     map_option (\<lambda>cs. (length cs, if length cs < lim then cs @ [0] else cs))
       (user_string mem src lim)"
proof (induction mem src lim rule: byte_at_a_time.induct)
  case (1 mem src)
  then show ?case by simp
next
  case (2 mem src lim)
  show ?case
  proof (cases "mem src")
    case None
    then show ?thesis by simp
  next
    case (Some c)
    show ?thesis
    proof (cases "c = 0")
      case True
      with Some show ?thesis by simp
    next
      case False
      with Some 2 show ?thesis
        by (cases "user_string mem (src + 1) lim") simp_all
    qed
  qed
qed

lemma user_string_word:
  "copy_from_user mem src m = Some w \<Longrightarrow> m \<le> lim \<Longrightarrow>
   user_string mem src lim =
     (if 0 \<in> set w then Some (takeWhile (\<lambda>c. c \<noteq> 0) w)
      else map_option ((@) w) (user_string mem (src + of_nat m) (lim - m)))"
proof (induction m arbitrary: src lim w)
  case 0
  then show ?case by (cases "user_string mem src lim") auto
next
  case (Suc m)
  from Suc.prems(2) obtain lim' where mx: "lim = Suc lim'" and le: "m \<le> lim'"
    by (cases lim) auto
  from Suc.prems(1) obtain b w' where b: "mem src = Some b" and
    w': "copy_from_user mem (src + 1) m = Some w'" and w: "w = b # w'"
    by (auto split: option.splits)
  have a: "src + of_nat (Suc m) = src + 1 + of_nat m" by simp
  show ?case
  proof (cases "b = 0")
    case True
    with b w mx show ?thesis by simp
  next
    case False
    with Suc.IH [OF w' le] b w mx show ?thesis unfolding a
      by (cases "user_string mem (src + 1 + of_nat m) (lim' - m)") simp_all
  qed
qed

lemma do_strncpy_from_user_eq:
  "case user_string mem src lim of
     None \<Rightarrow> do_strncpy_from_user mem src lim = None
   | Some cs \<Rightarrow>
       \<exists>p\<le>7. do_strncpy_from_user mem src lim =
                Some (length cs, if length cs < lim then cs @ replicate (Suc p) 0 else cs) \<and>
              (length cs < lim \<longrightarrow> length cs + Suc p \<le> lim)"
proof (induction mem src lim rule: do_strncpy_from_user.induct)
  case (1 mem src lim)
  have bytes: ?case if "do_strncpy_from_user mem src lim = byte_at_a_time mem src lim"
  proof (cases "user_string mem src lim")
    case None
    with that show ?thesis by (simp add: byte_at_a_time_eq)
  next
    case (Some cs)
    from user_string_length [OF Some] have "length cs \<le> lim" .
    with that Some show ?thesis
      by (auto simp: byte_at_a_time_eq intro!: exI [of _ 0])
  qed
  show ?case
  proof (cases "8 \<le> lim")
    case False
    then show ?thesis by (intro bytes) (simp add: do_strncpy_from_user.simps [of mem src lim])
  next
    case True
    show ?thesis
    proof (cases "copy_from_user mem src 8")
      case None
      with True show ?thesis
        by (intro bytes) (simp add: do_strncpy_from_user.simps [of mem src lim])
    next
      case (Some w)
      from copy_from_user_length [OF Some] have lw: "length w = 8" .
      note us = user_string_word [OF Some True]
      show ?thesis
      proof (cases "0 \<in> set w")
        case z: True
        let ?cs = "takeWhile (\<lambda>c. c \<noteq> 0) w"
        from takeWhile_short [OF z, of "\<lambda>c. c \<noteq> 0"] lw have k: "length ?cs < 8" by simp
        have tk: "take (length ?cs) w = ?cs" by (rule takeWhile_eq_take [symmetric])
        from True Some z have "do_strncpy_from_user mem src lim =
               Some (length ?cs, ?cs @ replicate (8 - length ?cs) 0)"
          by (simp add: do_strncpy_from_user.simps [of mem src lim] Let_def tk)
        moreover from k have "8 - length ?cs = Suc (7 - length ?cs)" by simp
        ultimately show ?thesis using us z k True
          by (auto intro!: exI [of _ "7 - length ?cs"])
      next
        case nz: False
        from True Some nz have d: "do_strncpy_from_user mem src lim =
               map_option (\<lambda>(res, bs). (8 + res, w @ bs))
                 (do_strncpy_from_user mem (src + 8) (lim - 8))"
          by (simp add: do_strncpy_from_user.simps [of mem src lim])
        note ih = "1.IH" [OF True Some nz]
        show ?thesis
        proof (cases "user_string mem (src + 8) (lim - 8)")
          case None
          with ih us nz d show ?thesis by simp
        next
          case (Some cs')
          with ih obtain p where p: "p \<le> 7" and
            r: "do_strncpy_from_user mem (src + 8) (lim - 8) =
                  Some (length cs', if length cs' < lim - 8 then cs' @ replicate (Suc p) 0 else cs')"
            and b: "length cs' < lim - 8 \<longrightarrow> length cs' + Suc p \<le> lim - 8"
            by auto
          from us nz Some have u: "user_string mem src lim = Some (w @ cs')" by simp
          from True lw have c: "length (w @ cs') < lim \<longleftrightarrow> length cs' < lim - 8" by auto
          from d r lw True b c u p show ?thesis
            by (auto intro!: exI [of _ p])
        qed
      qed
    qed
  qed
qed


lemma strncpy_from_user_eq:
  assumes "0 < sz"
  shows "case user_string mem src sz of
           None \<Rightarrow> strncpy_from_user mem src sz = None
         | Some ds \<Rightarrow>
             \<exists>p\<le>7. strncpy_from_user mem src sz =
                      Some (length ds, if length ds < sz then ds @ replicate (Suc p) 0 else ds) \<and>
                    (length ds < sz \<longrightarrow> length ds + Suc p \<le> sz) \<and> length ds \<le> sz"
proof (cases "user_string mem src sz")
  case None
  with do_strncpy_from_user_eq [of mem src sz] assms show ?thesis
    by (simp add: strncpy_from_user_def)
next
  case (Some ds)
  with do_strncpy_from_user_eq [of mem src sz] obtain p where "p \<le> 7"
    "do_strncpy_from_user mem src sz =
       Some (length ds, if length ds < sz then ds @ replicate (Suc p) 0 else ds)"
    "length ds < sz \<longrightarrow> length ds + Suc p \<le> sz"
    by auto
  with Some user_string_length [OF Some] assms show ?thesis
    by (auto simp: strncpy_from_user_def intro!: exI [of _ p])
qed

lemma str_read_Some:
  assumes "str_read mem sz src = Some cs" "0 < sz"
  shows "length cs < sz" and "0 \<notin> set cs"
proof -
  from assms obtain ds where ds: "user_string mem src sz = Some ds"
    and cs: "cs = (if sz \<le> length ds then take (sz - 1) ds else ds)"
    by (auto simp: str_read_def)
  from cs assms(2) show "length cs < sz" by (auto split: if_splits)
  from user_string_no_nul [OF ds] cs show "0 \<notin> set cs"
    by (auto split: if_splits dest: in_set_takeD)
qed

lemma str_tail_props:
  assumes "str_read mem sz src = Some cs" "0 < sz"
  shows "\<exists>p\<le>7. str_tail mem sz src = 0 # replicate p 0"
    and "length cs + length (str_tail mem sz src) \<le> sz"
proof -
  from assms(1) obtain ds where ds: "user_string mem src sz = Some ds"
    and cs: "cs = (if sz \<le> length ds then take (sz - 1) ds else ds)"
    by (auto simp: str_read_def)
  from strncpy_from_user_eq [OF assms(2), of mem src] ds obtain p where p: "p \<le> 7" and
    r: "strncpy_from_user mem src sz =
          Some (length ds, if length ds < sz then ds @ replicate (Suc p) 0 else ds)" and
    b: "length ds < sz \<longrightarrow> length ds + Suc p \<le> sz" and l: "length ds \<le> sz"
    by auto
  show "\<exists>p\<le>7. str_tail mem sz src = 0 # replicate p 0"
  proof (cases "length ds < sz")
    case True
    with r have "str_tail mem sz src = 0 # replicate p 0" by (simp add: str_tail_def)
    with p show ?thesis by blast
  next
    case False
    with r have "str_tail mem sz src = 0 # replicate 0 0" by (simp add: str_tail_def)
    then show ?thesis by blast
  qed
  show "length cs + length (str_tail mem sz src) \<le> sz"
    using r b l cs assms(2) by (cases "length ds < sz") (auto simp: str_tail_def)
qed

lemma read_str_eq:
  assumes "0 < sz"
  shows "bpf_probe_read_user_str mem buf off sz src =
           (case str_read mem sz src of
              None \<Rightarrow> (- EFAULT, write_bytes buf off (replicate sz 0))
            | Some cs \<Rightarrow>
                (int (length cs) + 1, write_bytes buf off (cs @ str_tail mem sz src)))"
proof (cases "user_string mem src sz")
  case None
  with strncpy_from_user_eq [OF assms, of mem src] assms show ?thesis
    by (simp add: bpf_probe_read_user_str_def str_read_def)
next
  case (Some ds)
  with strncpy_from_user_eq [OF assms, of mem src] obtain p where
    r: "strncpy_from_user mem src sz =
          Some (length ds, if length ds < sz then ds @ replicate (Suc p) 0 else ds)" and
    l: "length ds \<le> sz"
    by auto
  show ?thesis
  proof (cases "length ds < sz")
    case True
    with r Some assms show ?thesis
      by (simp add: bpf_probe_read_user_str_def str_read_def str_tail_def)
  next
    case False
    with l have "length ds = sz" by simp
    with r Some assms show ?thesis
      by (simp add: bpf_probe_read_user_str_def str_read_def str_tail_def)
  qed
qed

lemma read_str_length:
  assumes "off + sz \<le> length buf"
  shows "length (snd (bpf_probe_read_user_str mem buf off sz src)) = length buf"
proof (cases "sz = 0")
  case True
  then show ?thesis by (simp add: bpf_probe_read_user_str_def)
next
  case False
  then have sz: "0 < sz" by simp
  show ?thesis
  proof (cases "str_read mem sz src")
    case None
    with sz assms show ?thesis by (simp add: read_str_eq length_write_bytes)
  next
    case (Some cs)
    from str_tail_props(2) [OF Some sz] assms
    have "off + length (cs @ str_tail mem sz src) \<le> length buf"
      by simp
    with Some sz show ?thesis by (simp add: read_str_eq length_write_bytes del: length_append)
  qed
qed

lemma read_str_ret_le: "fst (bpf_probe_read_user_str mem buf off sz src) \<le> int sz"
proof (cases "sz = 0")
  case True
  then show ?thesis by (simp add: bpf_probe_read_user_str_def)
next
  case False
  then have sz: "0 < sz" by simp
  show ?thesis
  proof (cases "str_read mem sz src")
    case None
    with sz show ?thesis by (simp add: read_str_eq EFAULT_def)
  next
    case (Some cs)
    with sz str_read_Some(1) [OF Some sz] show ?thesis by (simp add: read_str_eq)
  qed
qed

lemma read_str_has_nul:
  assumes "0 < sz" "off + sz \<le> length buf"
  shows "\<exists>j. j < sz \<and> snd (bpf_probe_read_user_str mem buf off sz src) ! (off + j) = 0"
proof (cases "str_read mem sz src")
  case None
  from assms have "write_bytes buf off (replicate sz 0) ! (off + 0) = replicate sz 0 ! (off + 0 - off)"
    by (intro nth_write_bytes) simp_all
  with None assms have "snd (bpf_probe_read_user_str mem buf off sz src) ! (off + 0) = 0"
    by (simp add: read_str_eq)
  with assms show ?thesis by blast
next
  case (Some cs)
  note len = str_read_Some(1) [OF Some assms(1)]
  from str_tail_props(1) [OF Some assms(1)] obtain p where
    tl: "str_tail mem sz src = 0 # replicate p 0" by blast
  from assms len
  have "write_bytes buf off (cs @ str_tail mem sz src) ! (off + length cs) =
          (cs @ str_tail mem sz src) ! (off + length cs - off)"
    by (intro nth_write_bytes) (simp_all add: tl)
  with Some assms tl have "snd (bpf_probe_read_user_str mem buf off sz src) ! (off + length cs) = 0"
    by (simp add: read_str_eq)
  with len show ?thesis by blast
qed

lemma argv_inv_space:
  assumes "argv_inv len buf pos" "pos < len - 1"
  shows "argv_inv len (buf[nat pos := 0x20]) (pos + 1)"
proof -
  from assms have n: "nat pos < length buf" and p: "0 \<le> pos" by (auto simp: argv_inv_def)
  from p have "nat (pos + 1) = Suc (nat pos)" by simp
  moreover from n have "take (Suc (nat pos)) (buf[nat pos := 0x20]) = take (nat pos) buf @ [0x20]"
    by (simp add: take_Suc_conv_app_nth)
  ultimately show ?thesis using assms by (auto simp: argv_inv_def)
qed

lemma argv_inv_read:
  assumes inv: "argv_inv len buf pos" and rem: "0 < len - pos - 1"
      and rd: "bpf_probe_read_user_str mem buf (nat pos) (nat (len - pos - 1)) arg = (n, buf2)"
  shows "argv_inv len buf2 (if 0 < n then pos + (n - 1) else pos) \<and> length buf2 = length buf"
proof -
  let ?off = "nat pos" and ?sz = "nat (len - pos - 1)"
  from inv rem have sz: "0 < ?sz" and fit: "?off + ?sz \<le> length buf" and off: "?off \<le> length buf"
    and p: "0 \<le> pos"
    by (auto simp: argv_inv_def)
  from read_str_length [OF fit, of mem arg] rd have len2: "length buf2 = length buf" by simp
  show ?thesis
  proof (cases "str_read mem ?sz arg")
    case None
    with rd sz have n: "n = - EFAULT" and b: "buf2 = write_bytes buf ?off (replicate ?sz 0)"
      by (simp_all add: read_str_eq)
    from take_write_bytes [OF off, of 0 "replicate ?sz 0"] b
    have "take ?off buf2 = take ?off buf" by simp
    with n inv len2 show ?thesis by (simp add: argv_inv_def EFAULT_def)
  next
    case (Some cs)
    with rd sz have n: "n = int (length cs) + 1"
      and b: "buf2 = write_bytes buf ?off (cs @ str_tail mem ?sz arg)"
      by (simp_all add: read_str_eq)
    note cs = str_read_Some [OF Some sz]
    from take_write_bytes [OF off, of "length cs" "cs @ str_tail mem ?sz arg"] b
    have tk: "take (?off + length cs) buf2 = take ?off buf @ cs" by simp
    from p have "nat (pos + int (length cs)) = ?off + length cs" by (simp add: nat_add_distrib)
    with tk cs n inv len2 show ?thesis by (auto simp: argv_inv_def)
  qed
qed

lemma argv_inv_body:
  assumes inv: "argv_inv len buf pos" and lt: "pos < len - 1"
      and res: "fill_argv_body mem argv_ptr len i buf pos = Break (b', p') \<or>
                fill_argv_body mem argv_ptr len i buf pos = Continue (b', p')"
  shows "argv_inv len b' p' \<and> length b' = length buf"
proof -
  define arg where "arg = read_arg mem argv_ptr i"
  show ?thesis
  proof (cases "arg = 0")
    case True
    with res inv show ?thesis by (simp add: fill_argv_body_def arg_def)
  next
    case False
    define buf1 where "buf1 = (if 0 < i then buf[nat pos := 0x20] else buf)"
    define pos1 where "pos1 = (if 0 < i then pos + 1 else pos)"
    have inv1: "argv_inv len buf1 pos1" and len1: "length buf1 = length buf"
      using inv lt argv_inv_space [OF inv lt] by (auto simp: buf1_def pos1_def)
    show ?thesis
    proof (cases "len - pos1 - 1 \<le> 0")
      case True
      with res False lt inv1 len1 show ?thesis
        by (auto simp: fill_argv_body_def arg_def [symmetric] buf1_def pos1_def split: if_splits)
    next
      case rem: False
      obtain n buf2 where
        rd: "bpf_probe_read_user_str mem buf1 (nat pos1) (nat (len - pos1 - 1)) arg = (n, buf2)"
        by (cases "bpf_probe_read_user_str mem buf1 (nat pos1) (nat (len - pos1 - 1)) arg")
      from rem have "0 < len - pos1 - 1" by simp
      note r = argv_inv_read [OF inv1 this rd]
      from res False lt rem rd
      have "b' = buf2" and "p' = (if 0 < n then pos1 + (n - 1) else pos1)"
        by (auto simp: fill_argv_body_def arg_def [symmetric] buf1_def pos1_def Let_def
                 split: if_splits)
      with r len1 show ?thesis by simp
    qed
  qed
qed

lemma argv_inv_loop:
  assumes "argv_inv len buf pos" "fill_argv_loop mem argv_ptr len i buf pos = (i', b', p')"
  shows "argv_inv len b' p' \<and> length b' = length buf"
  using assms
proof (induction mem argv_ptr len i buf pos rule: fill_argv_loop.induct)
  case (1 mem argv_ptr len i buf pos)
  show ?case
  proof (cases "i < MAX_ARGS \<and> pos < len - 1")
    case False
    with "1.prems" show ?thesis by (simp add: fill_argv_loop.simps)
  next
    case True
    show ?thesis
    proof (cases "fill_argv_body mem argv_ptr len i buf pos")
      case (Break st)
      obtain b p where st: "st = (b, p)" by (cases st)
      with Break True "1.prems"(2) have "b' = b" "p' = p"
        by (simp_all add: fill_argv_loop.simps [of mem argv_ptr len i])
      with argv_inv_body [OF "1.prems"(1), of mem argv_ptr i b p] True Break st
      show ?thesis by simp
    next
      case (Continue st)
      obtain b p where st: "st = (b, p)" by (cases st)
      from argv_inv_body [OF "1.prems"(1), of mem argv_ptr i b p] True Continue st
      have inv: "argv_inv len b p" and len: "length b = length buf" by simp_all
      from Continue True st "1.prems"(2)
      have "fill_argv_loop mem argv_ptr len (Suc i) b p = (i', b', p')"
        by (simp add: fill_argv_loop.simps [of mem argv_ptr len i])
      from "1.IH" [OF True Continue st [symmetric] inv this] len show ?thesis by simp
    qed
  qed
qed

lemma fill_argv_loop_index:
  "fill_argv_loop mem argv_ptr len i buf pos = (i', b', p') \<Longrightarrow> i \<le> MAX_ARGS \<Longrightarrow>
   i \<le> i' \<and> i' \<le> MAX_ARGS"
proof (induction mem argv_ptr len i buf pos rule: fill_argv_loop.induct)
  case (1 mem argv_ptr len i buf pos)
  show ?case
  proof (cases "i < MAX_ARGS \<and> pos < len - 1")
    case False
    with "1.prems" show ?thesis by (simp add: fill_argv_loop.simps)
  next
    case True
    show ?thesis
    proof (cases "fill_argv_body mem argv_ptr len i buf pos")
      case (Break st)
      with True "1.prems" show ?thesis
        by (cases st) (simp add: fill_argv_loop.simps [of mem argv_ptr len i])
    next
      case (Continue st)
      obtain b p where st: "st = (b, p)" by (cases st)
      from Continue True st "1.prems"(1)
      have "fill_argv_loop mem argv_ptr len (Suc i) b p = (i', b', p')"
        by (simp add: fill_argv_loop.simps [of mem argv_ptr len i])
      from "1.IH" [OF True Continue st [symmetric] this] True show ?thesis by simp
    qed
  qed
qed

lemma c_string_nul: "0 \<notin> set cs \<Longrightarrow> c_string (cs @ 0 # rest) = cs"
  by (auto simp: c_string_def takeWhile_tail)

lemma fill_argv_final:
  assumes len: "0 < len" "len \<le> int (length buf)"
  obtains i' b' p' where
    "fill_argv_loop mem argv_ptr len 0 buf 0 = (i', b', p')"
    "fill_argv mem buf len argv_ptr = b'[nat p' := 0]"
    "0 \<le> p'" "p' < len" "length b' = length buf" "0 \<notin> set (take (nat p') b')"
    "i' \<le> MAX_ARGS"
proof -
  obtain i' b' p' where run: "fill_argv_loop mem argv_ptr len 0 buf 0 = (i', b', p')"
    by (cases "fill_argv_loop mem argv_ptr len 0 buf 0")
  from len have "argv_inv len buf 0" by (simp add: argv_inv_def)
  from argv_inv_loop [OF this run]
  have inv: "argv_inv len b' p'" and l: "length b' = length buf" by simp_all
  from inv have p: "0 \<le> p'" "p' < len" "0 \<notin> set (take (nat p') b')"
    by (simp_all add: argv_inv_def)
  from run p have "fill_argv mem buf len argv_ptr = b'[nat p' := 0]"
    by (simp add: fill_argv_def)
  moreover from fill_argv_loop_index [OF run] have "i' \<le> MAX_ARGS" by simp
  ultimately show ?thesis using that run p l by blast
qed

lemma c_string_update:
  assumes "n < length b" "0 \<notin> set (take n b)"
  shows "c_string (b[n := 0]) = take n b" and "take (Suc n) (b[n := 0]) = take n b @ [0]"
proof -
  from assms(1) have "b[n := 0] = take n b @ 0 # drop (Suc n) b"
    by (simp add: upd_conv_take_nth_drop)
  with assms(2) show "c_string (b[n := 0]) = take n b" by (simp add: c_string_nul)
  from assms(1) show "take (Suc n) (b[n := 0]) = take n b @ [0]"
    by (simp add: take_Suc_conv_app_nth)
qed

lemma fill_event_fields:
  "pid (fill_event k e fp ap) = ucast (drop_bit 32 (current_pid_tgid k))"
  "uid (fill_event k e fp ap) = ucast (current_uid_gid k AND 0xFFFFFFFF)"
  "gid (fill_event k e fp ap) = ucast (drop_bit 32 (current_uid_gid k))"
  "ppid (fill_event k e fp ap) = real_parent_tgid k"
  "comm (fill_event k e fp ap) = bpf_get_current_comm k TRIPWIRE_COMM_LEN"
  "filename (fill_event k e fp ap) =
     snd (bpf_probe_read_user_str (umem k) (filename e) 0 TRIPWIRE_PATH_LEN fp)"
  "argv (fill_event k e fp ap) = fill_argv (umem k) (argv e) (int TRIPWIRE_ARGV_LEN) ap"
  by (simp_all add: fill_event_def Let_def bpf_get_current_pid_tgid_def
        bpf_get_current_uid_gid_def)

lemma le_u64_zeros: "le_u64 (replicate n 0) = 0"
  by (induction n) simp_all

lemma copy_from_user_numeral:
  "copy_from_user mem src (numeral k) =
     (case mem src of
        None \<Rightarrow> None
      | Some b \<Rightarrow> map_option ((#) b) (copy_from_user mem (src + 1) (pred_numeral k)))"
  by (simp add: numeral_eq_Suc)

lemma read_arg_fault: "mem (argv_ptr + 8 * of_nat i) = None \<Longrightarrow> read_arg mem argv_ptr i = 0"
  by (simp add: read_arg_def bpf_probe_read_user_def copy_from_user_numeral le_u64_zeros)

lemma fill_argv_loop_null:
  "read_arg mem argv_ptr i = 0 \<Longrightarrow> fill_argv_loop mem argv_ptr len i buf pos = (i, buf, pos)"
  by (simp add: fill_argv_loop.simps [of mem argv_ptr len i] fill_argv_body_def)

lemma fill_argv_null_first:
  assumes "read_arg mem argv_ptr 0 = 0" "0 < length buf" "0 < len"
  shows "fill_argv mem buf len argv_ptr ! 0 = 0"
  using assms by (simp add: fill_argv_def fill_argv_loop_null)

lemma filename_has_nul:
  assumes "slot_ok e"
  shows "\<exists>j<256. filename (fill_event k e fp ap) ! j = 0"
proof -
  from assms have "0 + TRIPWIRE_PATH_LEN \<le> length (filename e)" by (simp add: slot_ok_def)
  from read_str_has_nul [OF _ this, of "umem k" fp] show ?thesis
    by (simp add: fill_event_fields TRIPWIRE_PATH_LEN_def)
qed


lemma user_cstr_strncpy:
  "user_cstr mem p s \<Longrightarrow> user_string mem p n = Some (take n s)"
proof (induction s arbitrary: p n)
  case Nil
  then show ?case by (cases n) simp_all
next
  case (Cons c cs)
  then show ?case by (cases n) simp_all
qed

lemma user_cstr_str_read:
  assumes "user_cstr mem p s" "0 < sz"
  shows "str_read mem sz p = Some (take (sz - 1) s)"
proof -
  have "(if sz \<le> length (take sz s) then take (sz - 1) (take sz s) else take sz s) =
        take (sz - 1) s"
    using assms(2) by (auto simp: min_def)
  with user_cstr_strncpy [OF assms(1), of sz] show ?thesis by (simp add: str_read_def)
qed

lemma c_string_write_str:
  assumes "0 \<notin> set cs"
  shows "c_string (write_bytes buf 0 (cs @ 0 # rest)) = cs"
  using assms by (simp add: write_bytes_def c_string_nul)

lemma c_string_read_str:
  assumes "0 < sz"
  shows "c_string (snd (bpf_probe_read_user_str mem buf 0 sz p)) =
           (case str_read mem sz p of None \<Rightarrow> [] | Some cs \<Rightarrow> cs)"
proof (cases "str_read mem sz p")
  case None
  from assms obtain n where "sz = Suc n" by (cases sz) auto
  with None show ?thesis by (simp add: read_str_eq write_bytes_def c_string_def)
next
  case (Some cs)
  from str_tail_props(1) [OF Some assms] obtain q where
    "str_tail mem sz p = 0 # replicate q 0" by blast
  with Some assms str_read_Some(2) [OF Some assms] show ?thesis
    by (simp add: read_str_eq c_string_write_str)
qed

lemma filename_of_user_cstr:
  assumes "user_cstr (umem k) fp s"
  shows "c_string (filename (fill_event k e fp ap)) = take 255 s"
proof -
  from user_cstr_str_read [OF assms, of 256]
  have "str_read (umem k) 256 fp = Some (take 255 s)" by simp
  then show ?thesis
    by (simp add: fill_event_fields TRIPWIRE_PATH_LEN_def c_string_read_str)
qed

lemma user_argv_nth:
  "user_argv mem a i ss \<Longrightarrow> j < length ss \<Longrightarrow>
   read_arg mem a (i + j) \<noteq> 0 \<and> user_cstr mem (read_arg mem a (i + j)) (ss ! j)"
proof (induction ss arbitrary: i j)
  case Nil
  then show ?case by simp
next
  case (Cons s ss)
  show ?case
  proof (cases j)
    case 0
    with Cons.prems show ?thesis by simp
  next
    case (Suc j')
    with Cons.prems have "user_argv mem a (Suc i) ss" "j' < length ss" by simp_all
    from Cons.IH [OF this] Suc show ?thesis by simp
  qed
qed

lemma join_args_append:
  "xs \<noteq> [] \<Longrightarrow> ys \<noteq> [] \<Longrightarrow> join_args (xs @ ys) = join_args xs @ 0x20 # join_args ys"
proof (induction xs rule: join_args.induct)
  case 1
  then show ?case by simp
next
  case (2 s)
  then show ?case by (cases ys) simp_all
next
  case (3 s t ss)
  then show ?case by simp
qed

lemma join_args_take_Suc:
  assumes "i < length ss"
  shows "join_args (take (Suc i) ss) =
           (if 0 < i then join_args (take i ss) @ [0x20] else join_args (take i ss)) @ ss ! i"
proof (cases "i = 0")
  case True
  with assms show ?thesis by (cases ss) simp_all
next
  case False
  with assms have "take i ss \<noteq> []" by auto
  from join_args_append [OF this, of "[ss ! i]"] assms False show ?thesis
    by (simp add: take_Suc_conv_app_nth)
qed

lemma join_args_take_mono:
  assumes "i \<le> k"
  shows "length (join_args (take i ss)) \<le> length (join_args (take k ss))"
proof -
  have split: "take k ss = take i ss @ drop i (take k ss)"
    using assms by (metis append_take_drop_id min.absorb1 take_take)
  show ?thesis
  proof (cases "take i ss = [] \<or> drop i (take k ss) = []")
    case True
    with split show ?thesis by auto
  next
    case False
    then have "join_args (take i ss @ drop i (take k ss)) =
               join_args (take i ss) @ 0x20 # join_args (drop i (take k ss))"
      by (intro join_args_append) simp_all
    with split show ?thesis by simp
  qed
qed

lemma loop_step_str:
  assumes i: "i < MAX_ARGS"
      and buf: "len \<le> int (length buf)" "take (length c) buf = c"
      and arg: "read_arg mem a i \<noteq> 0"
      and rd: "str_read mem (nat (len - int (length c1) - 1)) (read_arg mem a i) = Some t"
      and c1: "c1 = (if 0 < i then c @ [0x20] else c)"
      and room: "int (length c1) < len - 1"
  shows "\<exists>buf2. fill_argv_loop mem a len i buf (int (length c)) =
                  fill_argv_loop mem a len (Suc i) buf2 (int (length (c1 @ t))) \<and>
                take (length (c1 @ t)) buf2 = c1 @ t \<and> length buf2 = length buf"
proof -
  let ?pos = "int (length c)" and ?sz = "nat (len - int (length c1) - 1)"
  define buf1 where "buf1 = (if 0 < i then buf[length c := 0x20] else buf)"
  from room c1 have pos: "?pos < len - 1" by (auto split: if_splits)
  with buf have lt: "length c < length buf" by simp
  have l1: "length buf1 = length buf" by (simp add: buf1_def)
  have t1: "take (length c1) buf1 = c1"
    using buf(2) lt by (auto simp: buf1_def c1 take_Suc_conv_app_nth)
  from room have sz: "0 < ?sz" by simp
  from room buf(1) have off: "length c1 \<le> length buf1" by (simp add: l1)
  let ?tl = "str_tail mem ?sz (read_arg mem a i)"
  from str_tail_props(2) [OF rd sz] room buf(1)
  have fit: "length c1 + length (t @ ?tl) \<le> length buf1" by (simp add: l1)
  let ?buf2 = "write_bytes buf1 (length c1) (t @ ?tl)"
  have rs: "bpf_probe_read_user_str mem buf1 (length c1) ?sz (read_arg mem a i) =
              (int (length t) + 1, ?buf2)"
    using sz rd by (simp add: read_str_eq)
  have b1: "(if 0 < i \<and> ?pos < len - 1 then (buf[nat ?pos := 0x20], ?pos + 1) else (buf, ?pos)) =
            (buf1, int (length c1))"
    using pos by (simp add: buf1_def c1)
  have body: "fill_argv_body mem a len i buf ?pos = Continue (?buf2, int (length (c1 @ t)))"
    unfolding fill_argv_body_def Let_def b1 using arg room rs by simp
  have "fill_argv_loop mem a len i buf ?pos =
          fill_argv_loop mem a len (Suc i) ?buf2 (int (length (c1 @ t)))"
    using i pos body by (simp add: fill_argv_loop.simps [of mem a len i])
  moreover from take_write_bytes [OF off, of "length t" "t @ ?tl"] t1
  have "take (length (c1 @ t)) ?buf2 = c1 @ t" by simp
  moreover from length_write_bytes [OF fit] l1 have "length ?buf2 = length buf" by simp
  ultimately show ?thesis by blast
qed

lemma loop_step_fault:
  assumes i: "i < MAX_ARGS"
      and buf: "len \<le> int (length buf)" "take (length c) buf = c"
      and arg: "read_arg mem a i \<noteq> 0"
      and rd: "str_read mem (nat (len - int (length c1) - 1)) (read_arg mem a i) = None"
      and c1: "c1 = (if 0 < i then c @ [0x20] else c)"
      and room: "int (length c1) < len - 1"
  shows "\<exists>buf2. fill_argv_loop mem a len i buf (int (length c)) =
                  fill_argv_loop mem a len (Suc i) buf2 (int (length c1)) \<and>
                take (length c1) buf2 = c1 \<and> length buf2 = length buf"
proof -
  let ?pos = "int (length c)" and ?sz = "nat (len - int (length c1) - 1)"
  define buf1 where "buf1 = (if 0 < i then buf[length c := 0x20] else buf)"
  from room c1 have pos: "?pos < len - 1" by (auto split: if_splits)
  with buf have lt: "length c < length buf" by simp
  have l1: "length buf1 = length buf" by (simp add: buf1_def)
  have t1: "take (length c1) buf1 = c1"
    using buf(2) lt by (auto simp: buf1_def c1 take_Suc_conv_app_nth)
  from room have sz: "0 < ?sz" by simp
  from room buf(1) have off: "length c1 \<le> length buf1" by (simp add: l1)
  from room buf(1) have fit: "length c1 + length (replicate ?sz (0::u8)) \<le> length buf1"
    by (simp add: l1)
  let ?buf2 = "write_bytes buf1 (length c1) (replicate ?sz 0)"
  have rs: "bpf_probe_read_user_str mem buf1 (length c1) ?sz (read_arg mem a i) =
              (- EFAULT, ?buf2)"
    using sz rd by (simp add: read_str_eq)
  have b1: "(if 0 < i \<and> ?pos < len - 1 then (buf[nat ?pos := 0x20], ?pos + 1) else (buf, ?pos)) =
            (buf1, int (length c1))"
    using pos by (simp add: buf1_def c1)
  have body: "fill_argv_body mem a len i buf ?pos = Continue (?buf2, int (length c1))"
    unfolding fill_argv_body_def Let_def b1 using arg room rs by (simp add: EFAULT_def)
  have "fill_argv_loop mem a len i buf ?pos =
          fill_argv_loop mem a len (Suc i) ?buf2 (int (length c1))"
    using i pos body by (simp add: fill_argv_loop.simps [of mem a len i])
  moreover from take_write_bytes [OF off, of 0 "replicate ?sz 0"] t1
  have "take (length c1) ?buf2 = c1" by simp
  moreover from length_write_bytes [OF fit] l1 have "length ?buf2 = length buf" by simp
  ultimately show ?thesis by blast
qed

lemma fill_argv_content:
  assumes run: "fill_argv_loop mem a len 0 buf 0 = (i', b', int (length c))"
      and c: "take (length c) b' = c" "int (length c) < len" "length c < length b'"
  shows "take (Suc (length c)) (fill_argv mem buf len a) = c @ [0]"
  using assms by (simp add: fill_argv_def take_Suc_conv_app_nth)

lemma fill_argv_loop_max:
  "fill_argv_loop mem a len MAX_ARGS buf pos = (MAX_ARGS, buf, pos)"
  by (simp add: fill_argv_loop.simps [of mem a len MAX_ARGS])

lemma loop_joined_steps:
  assumes argv: "user_argv mem a 0 ss"
      and k: "k \<le> length ss" "k \<le> MAX_ARGS"
      and fits: "int (length (join_args (take k ss))) < len - 1"
      and len: "len \<le> int (length buf)"
      and i: "i \<le> k" "take (length (join_args (take i ss))) buf = join_args (take i ss)"
  shows "\<exists>b'. fill_argv_loop mem a len i buf (int (length (join_args (take i ss)))) =
                 fill_argv_loop mem a len k b' (int (length (join_args (take k ss)))) \<and>
               take (length (join_args (take k ss))) b' = join_args (take k ss) \<and>
               length b' = length buf"
  using i len
proof (induction "k - i" arbitrary: i buf)
  case 0
  then have "i = k" by simp
  with 0 show ?case by auto
next
  case (Suc d)
  then have ik: "i < k" and d: "d = k - Suc i" by simp_all
  with k have il: "i < length ss" and im: "i < MAX_ARGS" by simp_all
  let ?c = "join_args (take i ss)"
  define c1 where "c1 = (if 0 < i then ?c @ [0x20] else ?c)"
  from join_args_take_Suc [OF il] have nxt: "join_args (take (Suc i) ss) = c1 @ ss ! i"
    by (simp add: c1_def)
  from user_argv_nth [OF argv il]
  have arg: "read_arg mem a i \<noteq> 0" and str: "user_cstr mem (read_arg mem a i) (ss ! i)"
    by simp_all
  from ik have "Suc i \<le> k" by simp
  from join_args_take_mono [OF this, of ss] fits nxt
  have room: "int (length c1) + int (length (ss ! i)) < len - 1" by simp
  then have room1: "int (length c1) < len - 1" by simp
  from room have "take (nat (len - int (length c1) - 1) - 1) (ss ! i) = ss ! i" by simp
  with user_cstr_str_read [OF str, of "nat (len - int (length c1) - 1)"] room1
  have rd: "str_read mem (nat (len - int (length c1) - 1)) (read_arg mem a i) = Some (ss ! i)"
    by simp
  from loop_step_str [OF im Suc.prems(3) Suc.prems(2) arg rd c1_def room1]
  obtain buf2 where
    step: "fill_argv_loop mem a len i buf (int (length ?c)) =
             fill_argv_loop mem a len (Suc i) buf2 (int (length (c1 @ ss ! i)))" and
    tk: "take (length (c1 @ ss ! i)) buf2 = c1 @ ss ! i" and
    l2: "length buf2 = length buf"
    by blast
  from tk nxt have tk': "take (length (join_args (take (Suc i) ss))) buf2 =
                           join_args (take (Suc i) ss)" by simp
  from Suc.prems(3) l2 have len2: "len \<le> int (length buf2)" by simp
  from Suc.hyps(1) [OF d \<open>Suc i \<le> k\<close> tk' len2] step nxt l2 show ?case by simp
qed

lemma loop_joined:
  assumes argv: "user_argv mem a 0 ss"
      and k: "k \<le> length ss" "k \<le> MAX_ARGS" "k = MAX_ARGS \<or> read_arg mem a k = 0"
      and fits: "int (length (join_args (take k ss))) < len - 1"
      and len: "len \<le> int (length buf)"
      and i: "i \<le> k" "take (length (join_args (take i ss))) buf = join_args (take i ss)"
  shows "\<exists>b'. fill_argv_loop mem a len i buf (int (length (join_args (take i ss)))) =
                 (k, b', int (length (join_args (take k ss)))) \<and>
               take (length (join_args (take k ss))) b' = join_args (take k ss) \<and>
               length b' = length buf"
proof -
  from loop_joined_steps [OF argv k(1,2) fits len i] obtain b' where
    run: "fill_argv_loop mem a len i buf (int (length (join_args (take i ss)))) =
            fill_argv_loop mem a len k b' (int (length (join_args (take k ss))))" and
    b': "take (length (join_args (take k ss))) b' = join_args (take k ss)"
        "length b' = length buf"
    by blast
  from k(3) have "fill_argv_loop mem a len k b' (int (length (join_args (take k ss)))) =
                    (k, b', int (length (join_args (take k ss))))"
  proof
    assume "k = MAX_ARGS"
    then show ?thesis by (simp add: fill_argv_loop_max)
  next
    assume "read_arg mem a k = 0"
    then show ?thesis by (rule fill_argv_loop_null)
  qed
  with run b' show ?thesis by simp
qed

lemma fill_argv_joined:
  assumes argv: "user_argv mem a 0 ss"
      and k: "k \<le> length ss" "k \<le> MAX_ARGS" "k = MAX_ARGS \<or> read_arg mem a k = 0"
      and fits: "int (length (join_args (take k ss))) < len - 1"
      and len: "len \<le> int (length buf)"
  shows "fst (fill_argv_loop mem a len 0 buf 0) = k"
    and "take (Suc (length (join_args (take k ss)))) (fill_argv mem buf len a) =
           join_args (take k ss) @ [0]"
proof -
  from loop_joined [OF argv k fits len, of 0] obtain b' where
    run: "fill_argv_loop mem a len 0 buf 0 = (k, b', int (length (join_args (take k ss))))" and
    tk: "take (length (join_args (take k ss))) b' = join_args (take k ss)" and
    l: "length b' = length buf"
    by auto
  from run show "fst (fill_argv_loop mem a len 0 buf 0) = k" by simp
  from fits len l have "int (length (join_args (take k ss))) < len"
    "length (join_args (take k ss)) < length b'" by simp_all
  from fill_argv_content [OF run tk this]
  show "take (Suc (length (join_args (take k ss)))) (fill_argv mem buf len a) =
          join_args (take k ss) @ [0]" .
qed

lemma unat_of_nat_small: "n < 2 ^ 64 \<Longrightarrow> unat (of_nat n :: 64 word) = n"
  by (simp add: unat_of_nat)

lemma mem_of_head:
  assumes "n < length bs" "n < 2 ^ 64"
  shows "mem_of ((base, bs) # segs) (base + of_nat n) = Some (bs ! n)"
  using assms by (simp add: mem_of.simps unat_of_nat_small)

lemma user_cstr_mem_of:
  assumes "0 \<notin> set s" "length pre + length s < 2 ^ 64"
  shows "user_cstr (mem_of ((base, pre @ s @ [0]) # segs)) (base + of_nat (length pre)) s"
  using assms
proof (induction s arbitrary: pre)
  case Nil
  then have "mem_of ((base, pre @ [0]) # segs) (base + of_nat (length pre)) =
             Some ((pre @ [0]) ! length pre)"
    by (intro mem_of_head) simp_all
  then show ?case by (simp)
next
  case (Cons c cs)
  from Cons.prems have "mem_of ((base, pre @ (c # cs) @ [0]) # segs) (base + of_nat (length pre)) =
             Some ((pre @ (c # cs) @ [0]) ! length pre)"
    by (intro mem_of_head) simp_all
  moreover from Cons.IH [of "pre @ [c]"] Cons.prems
  have "user_cstr (mem_of ((base, pre @ (c # cs) @ [0]) # segs))
          (base + of_nat (length pre) + 1) cs"
    by (simp add: algebra_simps)
  ultimately show ?case using Cons.prems by (simp)
qed

lemmas mem_eval = mem_of.simps bytes_of_def read_arg_def bpf_probe_read_user_def
  copy_from_user_numeral

lemma slot_ok_stale: "slot_ok (stale_slot c)"
  by (simp add: slot_ok_def stale_slot_def TRIPWIRE_COMM_LEN_def TRIPWIRE_PATH_LEN_def
        TRIPWIRE_ARGV_LEN_def)

lemma argv_seventeen: "user_argv mem_seventeen 0x1000 0 args_seventeen"
  by (simp add: args_seventeen_def mem_seventeen_def mem_eval)

subsection \<open>More on the loop, and the concrete inputs\<close>

lemma str_read_fault: "mem p = None \<Longrightarrow> 0 < sz \<Longrightarrow> str_read mem sz p = None"
  by (cases sz) (simp_all add: str_read_def)

lemma write_bytes_single: "off < length buf \<Longrightarrow> write_bytes buf off [c] = buf[off := c]"
  by (simp add: write_bytes_def upd_conv_take_nth_drop)

lemma read_str_failed:
  assumes "0 < sz" "fst (bpf_probe_read_user_str mem buf off sz src) \<le> 0"
  shows "bpf_probe_read_user_str mem buf off sz src =
           (- EFAULT, write_bytes buf off (replicate sz 0))"
  using assms by (cases "str_read mem sz src") (simp_all add: read_str_eq)

lemma fault_mid_args:
  "read_arg mem_fault_mid 0x1000 0 = 0x2000"
  "read_arg mem_fault_mid 0x1000 (Suc 0) = 0x9000"
  "read_arg mem_fault_mid 0x1000 (Suc (Suc 0)) = 0x2010"
  "read_arg mem_fault_mid 0x1000 (Suc (Suc (Suc 0))) = 0"
  by (simp_all add: mem_fault_mid_def mem_eval)

lemma fault_mid_strs:
  "user_cstr mem_fault_mid 0x2000 [0x61]"
  "user_cstr mem_fault_mid 0x2010 [0x62]"
  "mem_fault_mid 0x9000 = None"
  by (simp_all add: mem_fault_mid_def mem_eval)

lemma fault_mid_run:
  "\<exists>b'. fill_argv_loop mem_fault_mid 0x1000 256 0 (replicate 256 0xAA) 0 =
           (Suc (Suc (Suc 0)), b', int (length [0x61 :: u8, 0x20, 0x20, 0x62])) \<and>
         take (length [0x61 :: u8, 0x20, 0x20, 0x62]) b' = [0x61, 0x20, 0x20, 0x62] \<and>
         length b' = 256"
proof -
  let ?m = mem_fault_mid and ?buf = "replicate 256 (0xAA :: u8)"
  have "str_read ?m (nat (256 - int (length ([] :: u8 list)) - 1)) (read_arg ?m 0x1000 0) =
          Some [0x61]"
    using user_cstr_str_read [OF fault_mid_strs(1), of 255] by (simp add: fault_mid_args)
  from loop_step_str [of 0 256 ?buf "[]" ?m "0x1000" "[]" "[0x61]", OF _ _ _ _ this]
  obtain b1 where s1: "fill_argv_loop ?m 0x1000 256 0 ?buf 0 =
                         fill_argv_loop ?m 0x1000 256 (Suc 0) b1 (int (length [0x61 :: u8]))"
    and t1: "take (length [0x61 :: u8]) b1 = [0x61]" and l1: "length b1 = 256"
    by (auto simp: MAX_ARGS_def fault_mid_args)
  have "str_read ?m (nat (256 - int (length [0x61 :: u8, 0x20]) - 1)) (read_arg ?m 0x1000 (Suc 0)) =
          None"
    by (simp add: fault_mid_args str_read_fault fault_mid_strs)
  from loop_step_fault [of "Suc 0" 256 b1 "[0x61]" ?m "0x1000" "[0x61, 0x20]", OF _ _ t1 _ this]
  obtain b2 where s2: "fill_argv_loop ?m 0x1000 256 (Suc 0) b1 (int (length [0x61 :: u8])) =
                         fill_argv_loop ?m 0x1000 256 (Suc (Suc 0)) b2
                           (int (length [0x61 :: u8, 0x20]))"
    and t2: "take (length [0x61 :: u8, 0x20]) b2 = [0x61, 0x20]" and l2: "length b2 = 256"
    by (auto simp: MAX_ARGS_def fault_mid_args l1)
  have "str_read ?m (nat (256 - int (length [0x61 :: u8, 0x20, 0x20]) - 1))
          (read_arg ?m 0x1000 (Suc (Suc 0))) = Some [0x62]"
    using user_cstr_str_read [OF fault_mid_strs(2), of 252] by (simp add: fault_mid_args)
  from loop_step_str [of "Suc (Suc 0)" 256 b2 "[0x61, 0x20]" ?m "0x1000" "[0x61, 0x20, 0x20]" "[0x62]",
          OF _ _ t2 _ this]
  obtain b3 where s3: "fill_argv_loop ?m 0x1000 256 (Suc (Suc 0)) b2 (int (length [0x61 :: u8, 0x20])) =
                         fill_argv_loop ?m 0x1000 256 (Suc (Suc (Suc 0))) b3
                           (int (length [0x61 :: u8, 0x20, 0x20, 0x62]))"
    and t3: "take (length [0x61 :: u8, 0x20, 0x20, 0x62]) b3 = [0x61, 0x20, 0x20, 0x62]"
    and l3: "length b3 = 256"
    by (auto simp: MAX_ARGS_def fault_mid_args l2)
  from fill_argv_loop_null [OF fault_mid_args(4), of 256 b3] s1 s2 s3 t3 l3
  show ?thesis by simp
qed

lemma long_args:
  "read_arg mem_long 0x1000 0 = 0x2000"
  "read_arg mem_long 0x1000 (Suc 0) = 0"
  by (simp_all add: mem_long_def mem_eval)

lemma long_str: "user_cstr mem_long 0x2000 (replicate 300 0x41)"
  using user_cstr_mem_of [of "replicate 300 0x41" "[]" "0x2000"]
  by (simp add: mem_long_def)






lemma fill_argv_body_eq:
  assumes "read_arg mem a i \<noteq> 0" "pos < len - 1"
      and "pos1 = (if 0 < i then pos + 1 else pos)"
      and "buf1 = (if 0 < i then buf[nat pos := 0x20] else buf)"
  shows "fill_argv_body mem a len i buf pos =
           (if len - pos1 - 1 \<le> 0 then Break (buf1, pos1)
            else case str_read mem (nat (len - pos1 - 1)) (read_arg mem a i) of
                   None \<Rightarrow>
                     Continue (write_bytes buf1 (nat pos1) (replicate (nat (len - pos1 - 1)) 0),
                               pos1)
                 | Some cs \<Rightarrow>
                     Continue (write_bytes buf1 (nat pos1)
                                 (cs @ str_tail mem (nat (len - pos1 - 1)) (read_arg mem a i)),
                               pos1 + int (length cs)))"
proof -
  have b1: "(if 0 < i \<and> pos < len - 1 then (buf[nat pos := 0x20], pos + 1) else (buf, pos)) =
            (buf1, pos1)"
    using assms(2,3,4) by simp
  show ?thesis
  proof (cases "len - pos1 - 1 \<le> 0")
    case True
    then show ?thesis unfolding fill_argv_body_def Let_def b1 using assms(1) by simp
  next
    case False
    then have sz: "0 < nat (len - pos1 - 1)" by simp
    show ?thesis unfolding fill_argv_body_def Let_def b1 using assms(1) False
      by (simp add: read_str_eq [OF sz] EFAULT_def split: option.split)
  qed
qed

lemma fill_argv_body_rel:
  assumes inv: "argv_inv len b1 pos" "argv_inv len b2 pos" and lt: "pos < len - 1"
      and tk: "take (nat pos) b1 = take (nat pos) b2"
  shows "rel_iter (\<lambda>(x1, q1) (x2, q2). q1 = q2 \<and> take (nat q1) x1 = take (nat q1) x2)
           (fill_argv_body mem a len i b1 pos) (fill_argv_body mem a len i b2 pos)"
proof (cases "read_arg mem a i = 0")
  case True
  with tk show ?thesis by (simp add: fill_argv_body_def)
next
  case False
  define pos1 where "pos1 = (if 0 < i then pos + 1 else pos)"
  define c1 where "c1 = (if 0 < i then b1[nat pos := 0x20] else b1)"
  define c2 where "c2 = (if 0 < i then b2[nat pos := 0x20] else b2)"
  from inv lt have n: "nat pos < length b1" "nat pos < length b2" and p: "0 \<le> pos"
    by (auto simp: argv_inv_def)
  from p have np: "nat (pos + 1) = Suc (nat pos)" by simp
  have tk1: "take (nat pos1) c1 = take (nat pos1) c2"
    using tk n by (simp add: pos1_def c1_def c2_def np take_Suc_conv_app_nth)
  from p have p1: "0 \<le> pos1" by (simp add: pos1_def)
  from inv lt have off: "nat pos1 \<le> length c1" "nat pos1 \<le> length c2"
    by (auto simp: argv_inv_def pos1_def c1_def c2_def)
  note e1 = fill_argv_body_eq [OF False lt pos1_def c1_def]
  note e2 = fill_argv_body_eq [OF False lt pos1_def c2_def]
  show ?thesis
  proof (cases "len - pos1 - 1 \<le> 0")
    case True
    with tk1 show ?thesis by (simp add: e1 e2)
  next
    case rem: False
    show ?thesis
    proof (cases "str_read mem (nat (len - pos1 - 1)) (read_arg mem a i)")
      case None
      from take_write_bytes [OF off(1), of 0] take_write_bytes [OF off(2), of 0] tk1
      show ?thesis using rem None by (simp add: e1 e2)
    next
      case (Some cs)
      from p1 have "nat (pos1 + int (length cs)) = nat pos1 + length cs"
        by (simp add: nat_add_distrib)
      with take_write_bytes [OF off(1), of "length cs"
             "cs @ str_tail mem (nat (len - pos1 - 1)) (read_arg mem a i)"]
           take_write_bytes [OF off(2), of "length cs"
             "cs @ str_tail mem (nat (len - pos1 - 1)) (read_arg mem a i)"] tk1
      show ?thesis using rem Some by (simp add: e1 e2)
    qed
  qed
qed

lemma fill_argv_loop_exit:
  "\<not> (i < MAX_ARGS \<and> pos < len - 1) \<Longrightarrow> fill_argv_loop mem a len i buf pos = (i, buf, pos)"
  by (subst fill_argv_loop.simps) auto

lemma fill_argv_loop_break:
  "i < MAX_ARGS \<and> pos < len - 1 \<Longrightarrow> fill_argv_body mem a len i buf pos = Break (b, p) \<Longrightarrow>
   fill_argv_loop mem a len i buf pos = (i, b, p)"
  by (simp add: fill_argv_loop.simps [of mem a len i])

lemma fill_argv_loop_continue:
  "i < MAX_ARGS \<and> pos < len - 1 \<Longrightarrow> fill_argv_body mem a len i buf pos = Continue (b, p) \<Longrightarrow>
   fill_argv_loop mem a len i buf pos = fill_argv_loop mem a len (Suc i) b p"
  by (simp add: fill_argv_loop.simps [of mem a len i])

lemma fill_argv_loop_rel:
  assumes "argv_inv len b1 pos" "argv_inv len b2 pos" "take (nat pos) b1 = take (nat pos) b2"
      and "fill_argv_loop mem a len i b1 pos = (i1, b1', p1)"
      and "fill_argv_loop mem a len i b2 pos = (i2, b2', p2)"
  shows "i1 = i2 \<and> p1 = p2 \<and> take (nat p1) b1' = take (nat p1) b2'"
  using assms
proof (induction mem a len i b1 pos arbitrary: b2 rule: fill_argv_loop.induct)
  case (1 mem a len i b1 pos)
  show ?case
  proof (cases "i < MAX_ARGS \<and> pos < len - 1")
    case False
    from fill_argv_loop_exit [OF False, of mem a b1] "1.prems"(4)
    have "i1 = i" "b1' = b1" "p1 = pos" by simp_all
    moreover from fill_argv_loop_exit [OF False, of mem a b2] "1.prems"(5)
    have "i2 = i" "b2' = b2" "p2 = pos" by simp_all
    ultimately show ?thesis using "1.prems"(3) by simp
  next
    case True
    then have lt: "pos < len - 1" by simp
    note rel = fill_argv_body_rel [OF "1.prems"(1,2) lt "1.prems"(3), of mem a i]
    show ?thesis
    proof (cases "fill_argv_body mem a len i b1 pos")
      case (Break st)
      obtain x1 q1 where st: "st = (x1, q1)" by (cases st)
      from rel Break st obtain x2 where
        b2: "fill_argv_body mem a len i b2 pos = Break (x2, q1)" and
        tk: "take (nat q1) x1 = take (nat q1) x2"
        by (cases "fill_argv_body mem a len i b2 pos") auto
      from fill_argv_loop_break [OF True Break [unfolded st]] "1.prems"(4)
      have "i1 = i" "b1' = x1" "p1 = q1" by simp_all
      moreover from fill_argv_loop_break [OF True b2] "1.prems"(5)
      have "i2 = i" "b2' = x2" "p2 = q1" by simp_all
      ultimately show ?thesis using tk by simp
    next
      case (Continue st)
      obtain x1 q1 where st: "st = (x1, q1)" by (cases st)
      from rel Continue st obtain x2 where
        b2: "fill_argv_body mem a len i b2 pos = Continue (x2, q1)" and
        tk: "take (nat q1) x1 = take (nat q1) x2"
        by (cases "fill_argv_body mem a len i b2 pos") auto
      from argv_inv_body [OF "1.prems"(1) lt, of mem a i x1 q1] Continue st
      have inv1: "argv_inv len x1 q1" by simp
      from argv_inv_body [OF "1.prems"(2) lt, of mem a i x2 q1] b2
      have inv2: "argv_inv len x2 q1" by simp
      from "1.prems"(4)
      have r1: "fill_argv_loop mem a len (Suc i) x1 q1 = (i1, b1', p1)"
        by (simp add: fill_argv_loop_continue [OF True Continue [unfolded st]])
      from "1.prems"(5)
      have r2: "fill_argv_loop mem a len (Suc i) x2 q1 = (i2, b2', p2)"
        by (simp add: fill_argv_loop_continue [OF True b2])
      from "1.IH" [OF True Continue st [symmetric] inv1 inv2 tk r1 r2] show ?thesis .
    qed
  qed
qed

lemma fill_argv_c_string_indep:
  assumes "0 < len" "len \<le> int (length b1)" "len \<le> int (length b2)"
  shows "c_string (fill_argv mem b1 len a) = c_string (fill_argv mem b2 len a)"
proof -
  from fill_argv_final [OF assms(1,2), of mem a] obtain i1 x1 p1 where
    r1: "fill_argv_loop mem a len 0 b1 0 = (i1, x1, p1)" and
    f1: "fill_argv mem b1 len a = x1[nat p1 := 0]" and
    q1: "0 \<le> p1" "p1 < len" "length x1 = length b1" "0 \<notin> set (take (nat p1) x1)"
    by metis
  from fill_argv_final [OF assms(1,3), of mem a] obtain i2 x2 p2 where
    r2: "fill_argv_loop mem a len 0 b2 0 = (i2, x2, p2)" and
    f2: "fill_argv mem b2 len a = x2[nat p2 := 0]" and
    q2: "0 \<le> p2" "p2 < len" "length x2 = length b2" "0 \<notin> set (take (nat p2) x2)"
    by metis
  from assms have "argv_inv len b1 0" "argv_inv len b2 0" by (simp_all add: argv_inv_def)
  moreover have "take (nat 0) b1 = take (nat 0) b2" by simp
  ultimately have "i1 = i2 \<and> p1 = p2 \<and> take (nat p1) x1 = take (nat p1) x2"
    using r1 r2 by (rule fill_argv_loop_rel)
  then have eq: "p1 = p2" "take (nat p1) x1 = take (nat p1) x2" by blast+
  from q1 assms(2) have "nat p1 < length x1" by simp
  from c_string_update(1) [OF this q1(4)] f1 have "c_string (fill_argv mem b1 len a) = take (nat p1) x1"
    by simp
  moreover from q2 assms(3) have "nat p2 < length x2" by simp
  from c_string_update(1) [OF this q2(4)] f2 have "c_string (fill_argv mem b2 len a) = take (nat p2) x2"
    by simp
  ultimately show ?thesis using eq by simp
qed

lemma nth_write_bytes_outside:
  "off + length bs \<le> k \<Longrightarrow> off + length bs \<le> length buf \<Longrightarrow>
   write_bytes buf off bs ! k = buf ! k"
  by (auto simp: write_bytes_def nth_append)

lemma fill_argv_body_last_byte:
  assumes inv: "argv_inv len buf pos" and lt: "pos < len - 1"
      and res: "fill_argv_body mem a len i buf pos = Break (b', p') \<or>
                fill_argv_body mem a len i buf pos = Continue (b', p')"
  shows "b' ! nat (len - 1) = buf ! nat (len - 1)"
proof (cases "read_arg mem a i = 0")
  case True
  with res show ?thesis by (simp add: fill_argv_body_def)
next
  case False
  define pos1 where "pos1 = (if 0 < i then pos + 1 else pos)"
  define buf1 where "buf1 = (if 0 < i then buf[nat pos := 0x20] else buf)"
  note e = fill_argv_body_eq [OF False lt pos1_def buf1_def]
  from inv lt have p: "0 \<le> pos" and l: "len \<le> int (length buf)" by (simp_all add: argv_inv_def)
  from p lt have b1: "buf1 ! nat (len - 1) = buf ! nat (len - 1)" by (simp add: buf1_def)
  have l1: "length buf1 = length buf" by (simp add: buf1_def)
  from p have p1: "0 \<le> pos1" by (simp add: pos1_def)
  show ?thesis
  proof (cases "len - pos1 - 1 \<le> 0")
    case True
    with res e b1 show ?thesis by auto
  next
    case rem: False
    let ?sz = "nat (len - pos1 - 1)"
    from rem have sz: "0 < ?sz" by simp
    from rem p1 have k: "nat pos1 + ?sz = nat (len - 1)" by simp
    from l have kl: "nat (len - 1) \<le> length buf1" by (simp add: l1)
    show ?thesis
    proof (cases "str_read mem ?sz (read_arg mem a i)")
      case None
      with res e rem have "b' = write_bytes buf1 (nat pos1) (replicate ?sz 0)" by auto
      moreover from k kl
      have "write_bytes buf1 (nat pos1) (replicate ?sz 0) ! nat (len - 1) = buf1 ! nat (len - 1)"
        by (intro nth_write_bytes_outside) simp_all
      ultimately show ?thesis using b1 by simp
    next
      case (Some cs)
      let ?w = "cs @ str_tail mem ?sz (read_arg mem a i)"
      from Some res e rem have "b' = write_bytes buf1 (nat pos1) ?w" by auto
      moreover from str_tail_props(2) [OF Some sz] k kl
      have "write_bytes buf1 (nat pos1) ?w ! nat (len - 1) = buf1 ! nat (len - 1)"
        by (intro nth_write_bytes_outside) simp_all
      ultimately show ?thesis using b1 by simp
    qed
  qed
qed

lemma fill_argv_loop_last_byte:
  assumes "argv_inv len buf pos" "fill_argv_loop mem a len i buf pos = (i', b', p')"
  shows "b' ! nat (len - 1) = buf ! nat (len - 1)"
  using assms
proof (induction mem a len i buf pos rule: fill_argv_loop.induct)
  case (1 mem a len i buf pos)
  show ?case
  proof (cases "i < MAX_ARGS \<and> pos < len - 1")
    case False
    from fill_argv_loop_exit [OF False, of mem a buf] "1.prems"(2) show ?thesis by simp
  next
    case True
    then have lt: "pos < len - 1" by simp
    show ?thesis
    proof (cases "fill_argv_body mem a len i buf pos")
      case (Break st)
      obtain b p where st: "st = (b, p)" by (cases st)
      from fill_argv_loop_break [OF True Break [unfolded st]] "1.prems"(2) have "b' = b" by simp
      with fill_argv_body_last_byte [OF "1.prems"(1) lt, of mem a i b p] Break st
      show ?thesis by simp
    next
      case (Continue st)
      obtain b p where st: "st = (b, p)" by (cases st)
      from argv_inv_body [OF "1.prems"(1) lt, of mem a i b p] Continue st
      have inv: "argv_inv len b p" by simp
      from fill_argv_loop_continue [OF True Continue [unfolded st]] "1.prems"(2)
      have "fill_argv_loop mem a len (Suc i) b p = (i', b', p')" by simp
      from "1.IH" [OF True Continue st [symmetric] inv this]
           fill_argv_body_last_byte [OF "1.prems"(1) lt, of mem a i b p] Continue st
      show ?thesis by simp
    qed
  qed
qed

lemma fill_argv_has_nul:
  assumes "0 < len" "len \<le> int (length buf)"
  shows "\<exists>j. j < nat len \<and> fill_argv mem buf len a ! j = 0"
proof -
  from fill_argv_final [OF assms, of mem a] obtain b' p' where
    out: "fill_argv mem buf len a = b'[nat p' := 0]" and
    p: "0 \<le> p'" "p' < len" and l: "length b' = length buf"
    by metis
  from p l assms have "nat p' < nat len \<and> b'[nat p' := 0] ! nat p' = 0" by simp
  with out show ?thesis by (intro exI [of _ "nat p'"]) simp
qed

lemma length_current_comm: "0 < sz \<Longrightarrow> length (bpf_get_current_comm k sz) = sz"
  by (simp add: bpf_get_current_comm_def Let_def)

lemma fill_argv_last_byte_kept:
  assumes "0 < len" "len \<le> int (length buf)"
      and run: "fill_argv_loop mem a len 0 buf 0 = (i', b', p')" and p: "0 \<le> p'" "p' < len - 1"
  shows "fill_argv mem buf len a ! nat (len - 1) = buf ! nat (len - 1)"
proof -
  from assms(1,2) have "argv_inv len buf 0" by (simp add: argv_inv_def)
  from fill_argv_loop_last_byte [OF this run] have "b' ! nat (len - 1) = buf ! nat (len - 1)" .
  moreover from p have "nat p' \<noteq> nat (len - 1)" by simp
  ultimately show ?thesis using run p by (simp add: fill_argv_def)
qed

lemma ls_mem:
  "user_cstr mem_ls 0x3000 [0x2F, 0x62, 0x69, 0x6E, 0x2F, 0x6C, 0x73]"
  "user_argv mem_ls 0x1000 0 [[0x6C, 0x73], [0x2D, 0x6C, 0x61], [0x2F, 0x74, 0x6D, 0x70]]"
  "read_arg mem_ls 0x1000 (Suc (Suc (Suc 0))) = 0"
  by (simp_all add: mem_ls_def mem_eval)

lemma ls_stale_bytes:
  "filename (fill_event (kernel_on mem_ls slot) (stale_slot c) 0x3000 0x1000) ! 255 = c"
  "argv (fill_event (kernel_on mem_ls slot) (stale_slot c) 0x3000 0x1000) ! 255 = c"
proof -
  let ?s = "[0x2F, 0x62, 0x69, 0x6E, 0x2F, 0x6C, 0x73] :: u8 list"
  let ?ss = "[[0x6C, 0x73], [0x2D, 0x6C, 0x61], [0x2F, 0x74, 0x6D, 0x70]] :: u8 list list"
  let ?buf = "replicate 256 c"
  have m: "umem (kernel_on mem_ls slot) = mem_ls" by (simp add: kernel_on_def)
  from user_cstr_str_read [OF ls_mem(1), of 256]
  have "str_read mem_ls 256 0x3000 = Some ?s" by simp
  then have rd: "str_read mem_ls 256 0x3000 = Some ?s" .
  from str_tail_props(1) [OF rd] obtain q where q: "q \<le> 7" and
    tl: "str_tail mem_ls 256 0x3000 = 0 # replicate q 0" by auto
  from rd tl have "snd (bpf_probe_read_user_str mem_ls ?buf 0 256 0x3000) =
               write_bytes ?buf 0 (?s @ 0 # replicate q 0)"
    by (simp add: read_str_eq)
  moreover from q have "write_bytes ?buf 0 (?s @ 0 # replicate q 0) ! 255 = ?buf ! 255"
    by (intro nth_write_bytes_outside) simp_all
  ultimately show "filename (fill_event (kernel_on mem_ls slot) (stale_slot c) 0x3000 0x1000) ! 255 = c"
    by (simp add: fill_event_fields m stale_slot_def TRIPWIRE_PATH_LEN_def)
  have "\<exists>b'. fill_argv_loop mem_ls 0x1000 256 0 ?buf (int (length (join_args (take 0 ?ss)))) =
               (3, b', int (length (join_args (take 3 ?ss)))) \<and>
             take (length (join_args (take 3 ?ss))) b' = join_args (take 3 ?ss) \<and>
             length b' = length ?buf"
    using ls_mem(2,3)
    by (intro loop_joined) (simp_all add: MAX_ARGS_def numeral_3_eq_3 del: user_argv.simps)
  then obtain b' where run: "fill_argv_loop mem_ls 0x1000 256 0 ?buf 0 = (3, b', 11)"
    by auto
  from fill_argv_last_byte_kept [OF _ _ run]
  have "fill_argv mem_ls ?buf 256 0x1000 ! 255 = ?buf ! 255" by simp
  then show "argv (fill_event (kernel_on mem_ls slot) (stale_slot c) 0x3000 0x1000) ! 255 = c"
    by (simp add: fill_event_fields m stale_slot_def TRIPWIRE_ARGV_LEN_def)
qed



lemma null_mapped_mem:
  "mem_null_mapped 0 \<noteq> None"
  "user_argv mem_null_mapped 0 0 [[0x78]]"
  "read_arg mem_null_mapped 0 (Suc 0) = 0"
  by (simp_all add: mem_null_mapped_def mem_eval)




lemma exact_args:
  "read_arg mem_exact 0x1000 15 = 0x4000"
  "read_arg mem_exact 0x1000 16 = 0x2010"
  by (simp_all add: mem_exact_def mem_eval)

lemma exact_str: "user_cstr mem_exact 0x4000 (replicate 225 0x78)"
  using user_cstr_mem_of [of "replicate 225 0x78" "[]" "0x4000"]
  by (simp add: mem_exact_def)

lemma user_argv_append:
  "user_argv mem a i (xs @ ys) = (user_argv mem a i xs \<and> user_argv mem a (i + length xs) ys)"
  by (induction xs arbitrary: i) auto

lemma exact_argv: "user_argv mem_exact 0x1000 0 args_exact"
proof -
  let ?xs = "[[0x61], [0x61], [0x61], [0x61], [0x61], [0x61], [0x61], [0x61],
      [0x61], [0x61], [0x61], [0x61], [0x61], [0x61], [0x61 :: u8]]"
  have a: "args_exact = ?xs @ [replicate 225 0x78, [0x62]]" by (simp add: args_exact_def)
  have 1: "user_argv mem_exact 0x1000 0 ?xs" by (simp add: mem_exact_def mem_eval)
  have 2: "user_cstr mem_exact 0x2010 [0x62]" by (simp add: mem_exact_def mem_eval)
  have r: "read_arg mem_exact 0x1000 (0 + length ?xs) = 0x4000"
          "read_arg mem_exact 0x1000 (Suc (0 + length ?xs)) = 0x2010"
    by (simp_all add: mem_exact_def mem_eval)
  have 3: "user_argv mem_exact 0x1000 (0 + length ?xs) [replicate 225 0x78, [0x62]]"
    unfolding user_argv.simps r using exact_str 2 by (simp del: user_cstr.simps)
  from 1 3 show ?thesis unfolding a user_argv_append by blast
qed

lemma exact_join:
  "join_args (take 15 args_exact) = bytes_of ''a a a a a a a a a a a a a a a''"
  "join_args (take 16 args_exact) =
     bytes_of ''a a a a a a a a a a a a a a a '' @ replicate 225 0x78"
  by (simp_all add: args_exact_def bytes_of_def)

text \<open>
  Sixteen arguments that take at most 254 bytes when joined: the loop ends at index 16
  and the buffer starts with the joined arguments and a NUL.
\<close>

lemma fill_argv_first_sixteen:
  assumes "user_argv mem argv_ptr 0 ss" "17 \<le> length ss"
      and "length (join_args (take 16 ss)) \<le> 254" "length buf = 256"
  shows "fst (fill_argv_loop mem argv_ptr 256 0 buf 0) = 16 \<and>
         take (length (join_args (take 16 ss)) + 1) (fill_argv mem buf 256 argv_ptr) =
           join_args (take 16 ss) @ [0]"
  using fill_argv_joined [of mem argv_ptr ss 16 256 buf] assms
  by (simp add: MAX_ARGS_def)

lemma fill_argv_first_sixteen_witness:
  "user_argv mem_seventeen 0x1000 0 args_seventeen \<and> 17 \<le> length args_seventeen \<and>
   length (join_args (take 16 args_seventeen)) \<le> 254 \<and>
   length (replicate 256 (0xAA :: u8)) = 256 \<and>
   fst (fill_argv_loop mem_seventeen 0x1000 256 0 (replicate 256 0xAA) 0) = 16 \<and>
   take 54 (fill_argv mem_seventeen (replicate 256 0xAA) 256 0x1000) =
     bytes_of ''a0 a1 a2 a3 a4 a5 a6 a7 a8 a9 a10 a11 a12 a13 a14 a15'' @ [0]"
proof -
  have j: "join_args (take 16 args_seventeen) =
             bytes_of ''a0 a1 a2 a3 a4 a5 a6 a7 a8 a9 a10 a11 a12 a13 a14 a15''"
    by (simp add: args_seventeen_def bytes_of_def)
  have n: "length (bytes_of ''a0 a1 a2 a3 a4 a5 a6 a7 a8 a9 a10 a11 a12 a13 a14 a15'') = 53"
    by (simp add: bytes_of_def)
  have l: "17 \<le> length args_seventeen" by (simp add: args_seventeen_def)
  have f: "length (join_args (take 16 args_seventeen)) \<le> 254" by (simp add: j n)
  have b: "length (replicate 256 (0xAA :: u8)) = 256" by simp
  from fill_argv_first_sixteen [OF argv_seventeen l f b] argv_seventeen l f
  show ?thesis by (simp add: j n)
qed

section \<open>The claims\<close>

text \<open>
  Claim C1. Every record in a ring the handlers can produce has a NUL byte in its
  \<^verbatim>\<open>filename\<close> field, at an index below 256, whatever the user memory is: when the
  read of the path faults, \<^verbatim>\<open>bpf_probe_read_user_str\<close> has zero-filled the field.
\<close>

theorem filename_nul_terminated:
  assumes "reachable ring" "r \<in> set ring"
  shows "\<exists>j<256. filename r ! j = 0"
  using assms
proof (induction ring arbitrary: r rule: reachable.induct)
  case empty
  then show ?case by simp
next
  case (execve ring k ctx)
  then show ?case
    by (cases "bpf_ringbuf_reserve k")
       (auto simp: trace_execve_def bpf_ringbuf_submit_def dest: filename_has_nul)
next
  case (execveat ring k ctx)
  then show ?case
    by (cases "bpf_ringbuf_reserve k")
       (auto simp: trace_execveat_def bpf_ringbuf_submit_def dest: filename_has_nul)
qed

theorem filename_nul_terminated_witness:
  "mem_fault_mid 0x9000 = None \<and>
   reachable [fill_event (kernel_on mem_fault_mid (Some (stale_slot 0xAA))) (stale_slot 0xAA)
                0x9000 0x1000] \<and>
   (\<exists>j<256. filename (fill_event (kernel_on mem_fault_mid (Some (stale_slot 0xAA)))
                 (stale_slot 0xAA) 0x9000 0x1000) ! j = 0)"
proof -
  let ?k = "kernel_on mem_fault_mid (Some (stale_slot 0xAA))"
  let ?ctx = "sys_enter [0x9000, 0x1000, 0, 0, 0, 0]"
  have res: "bpf_ringbuf_reserve ?k = Some (stale_slot 0xAA)"
    by (simp add: bpf_ringbuf_reserve_def kernel_on_def)
  then have "\<forall>e. bpf_ringbuf_reserve ?k = Some e \<longrightarrow> slot_ok e"
    by (simp add: slot_ok_stale)
  from reachable.execve [OF reachable.empty this, of ?ctx] res
  have r: "reachable [fill_event ?k (stale_slot 0xAA) 0x9000 0x1000]"
    by (simp add: trace_execve_def bpf_ringbuf_submit_def sys_enter_def)
  from filename_nul_terminated [OF r, of "fill_event ?k (stale_slot 0xAA) 0x9000 0x1000"] r
  show ?thesis by (simp add: fault_mid_strs)
qed

text \<open>
  Claim C2, as amended. \<^verbatim>\<open>fill_event\<close> overwrites \<^verbatim>\<open>pid\<close>, \<^verbatim>\<open>ppid\<close>, \<^verbatim>\<open>uid\<close>, \<^verbatim>\<open>gid\<close> and all 16
  bytes of \<^verbatim>\<open>comm\<close>, and it writes \<^verbatim>\<open>filename\<close> and \<^verbatim>\<open>argv\<close> up to and including a NUL
  terminator: these fields, and the C strings the two arrays hold, are the same whatever
  the reserved slot held before.
\<close>

theorem fill_event_overwrites:
  assumes "slot_ok e" "slot_ok e'"
  shows "pid (fill_event k e fp ap) = pid (fill_event k e' fp ap) \<and>
         ppid (fill_event k e fp ap) = ppid (fill_event k e' fp ap) \<and>
         uid (fill_event k e fp ap) = uid (fill_event k e' fp ap) \<and>
         gid (fill_event k e fp ap) = gid (fill_event k e' fp ap) \<and>
         comm (fill_event k e fp ap) = comm (fill_event k e' fp ap) \<and>
         length (comm (fill_event k e fp ap)) = 16 \<and>
         c_string (filename (fill_event k e fp ap)) =
           c_string (filename (fill_event k e' fp ap)) \<and>
         c_string (argv (fill_event k e fp ap)) = c_string (argv (fill_event k e' fp ap)) \<and>
         (\<exists>j<256. filename (fill_event k e fp ap) ! j = 0) \<and>
         (\<exists>j<256. argv (fill_event k e fp ap) ! j = 0)"
proof -
  from assms have la: "(256 :: int) \<le> int (length (argv e))" "(256 :: int) \<le> int (length (argv e'))"
    by (simp_all add: slot_ok_def TRIPWIRE_ARGV_LEN_def)
  have "c_string (fill_argv (umem k) (argv e) 256 ap) = c_string (fill_argv (umem k) (argv e') 256 ap)"
    using la by (intro fill_argv_c_string_indep) simp_all
  moreover from fill_argv_has_nul [OF _ la(1), of "umem k" ap]
  have "\<exists>j<256. fill_argv (umem k) (argv e) 256 ap ! j = 0" by simp
  moreover note filename_has_nul [OF assms(1), of k fp ap]
  ultimately show ?thesis
    by (simp add: fill_event_fields TRIPWIRE_ARGV_LEN_def TRIPWIRE_PATH_LEN_def
          TRIPWIRE_COMM_LEN_def c_string_read_str length_current_comm)
qed

theorem fill_event_overwrites_witness:
  "slot_ok (stale_slot 0xAA) \<and> slot_ok (stale_slot 0x55) \<and>
   pid (fill_event (kernel_on mem_ls None) (stale_slot 0xAA) 0x3000 0x1000) =
     pid (fill_event (kernel_on mem_ls None) (stale_slot 0x55) 0x3000 0x1000) \<and>
   comm (fill_event (kernel_on mem_ls None) (stale_slot 0xAA) 0x3000 0x1000) =
     comm (fill_event (kernel_on mem_ls None) (stale_slot 0x55) 0x3000 0x1000) \<and>
   c_string (filename (fill_event (kernel_on mem_ls None) (stale_slot 0xAA) 0x3000 0x1000)) =
     c_string (filename (fill_event (kernel_on mem_ls None) (stale_slot 0x55) 0x3000 0x1000)) \<and>
   c_string (argv (fill_event (kernel_on mem_ls None) (stale_slot 0xAA) 0x3000 0x1000)) =
     c_string (argv (fill_event (kernel_on mem_ls None) (stale_slot 0x55) 0x3000 0x1000)) \<and>
   (\<exists>j<256. argv (fill_event (kernel_on mem_ls None) (stale_slot 0xAA) 0x3000 0x1000) ! j = 0)"
  using fill_event_overwrites [OF slot_ok_stale slot_ok_stale,
          of "kernel_on mem_ls None" "0xAA" "0x3000" "0x1000" "0x55"]
  by (simp add: slot_ok_stale)

text \<open>
  Claim C2 as it is stated fails: the fields are not zero-padded. Behind the terminator
  the helper clears at most seven bytes, and the bytes after these are not overwritten.
  For \<^verbatim>\<open>/bin/ls\<close> with arguments \<^verbatim>\<open>ls -la /tmp\<close> the last byte of \<^verbatim>\<open>filename\<close> and of \<^verbatim>\<open>argv\<close>
  in the record is the byte the slot held before the fill, \<open>0xAA\<close> in one slot and \<open>0x55\<close>
  in another.
\<close>

theorem fill_event_stale_bytes_counterexample:
  "slot_ok (stale_slot 0xAA) \<and> slot_ok (stale_slot 0x55) \<and>
   filename (fill_event (kernel_on mem_ls (Some (stale_slot 0xAA))) (stale_slot 0xAA)
               0x3000 0x1000) ! 255 = 0xAA \<and>
   filename (fill_event (kernel_on mem_ls (Some (stale_slot 0x55))) (stale_slot 0x55)
               0x3000 0x1000) ! 255 = 0x55 \<and>
   argv (fill_event (kernel_on mem_ls (Some (stale_slot 0xAA))) (stale_slot 0xAA)
           0x3000 0x1000) ! 255 = 0xAA \<and>
   argv (fill_event (kernel_on mem_ls (Some (stale_slot 0x55))) (stale_slot 0x55)
           0x3000 0x1000) ! 255 = 0x55"
  by (simp add: slot_ok_stale ls_stale_bytes)

text \<open>
  Claim C3, as amended. When the string read for the \<open>i\<close>-th non-null argument pointer
  fails (a return value that is not positive), the helper has zero-filled the rest of
  the window, the cursor stays behind the separator, and the loop goes on with argument
  \<open>i + 1\<close>.
\<close>

theorem fill_argv_failed_read_continues:
  assumes "i < MAX_ARGS" "pos < len - 1"
      and "read_arg mem argv_ptr i \<noteq> 0"
      and "buf1 = (if 0 < i then buf[nat pos := 0x20] else buf)"
      and "pos1 = (if 0 < i then pos + 1 else pos)"
      and "0 < len - pos1 - 1"
      and "fst (bpf_probe_read_user_str mem buf1 (nat pos1) (nat (len - pos1 - 1))
                  (read_arg mem argv_ptr i)) \<le> 0"
  shows "fill_argv_loop mem argv_ptr len i buf pos =
           fill_argv_loop mem argv_ptr len (Suc i)
             (write_bytes buf1 (nat pos1) (replicate (nat (len - pos1 - 1)) 0)) pos1"
proof -
  from assms(6) have sz: "0 < nat (len - pos1 - 1)" by simp
  note rd = read_str_failed [OF sz assms(7)]
  have b1: "(if 0 < i \<and> pos < len - 1 then (buf[nat pos := 0x20], pos + 1) else (buf, pos)) =
            (buf1, pos1)"
    using assms(2,4,5) by simp
  have "fill_argv_body mem argv_ptr len i buf pos =
          Continue (write_bytes buf1 (nat pos1) (replicate (nat (len - pos1 - 1)) 0), pos1)"
    unfolding fill_argv_body_def Let_def b1 using assms(3,6) rd by (simp add: EFAULT_def)
  with assms(1,2) show ?thesis by (simp add: fill_argv_loop.simps [of mem argv_ptr len i])
qed

theorem fill_argv_failed_read_continues_witness:
  "read_arg mem_fault_mid 0x1000 1 \<noteq> 0 \<and>
   fst (bpf_probe_read_user_str mem_fault_mid ((0x61 # replicate 255 0xAA)[1 := 0x20]) 2 253
          (read_arg mem_fault_mid 0x1000 1)) \<le> 0 \<and>
   fill_argv_loop mem_fault_mid 0x1000 256 1 (0x61 # replicate 255 0xAA) 1 =
     fill_argv_loop mem_fault_mid 0x1000 256 2
       (write_bytes ((0x61 # replicate 255 0xAA)[1 := 0x20]) 2 (replicate 253 0)) 2"
proof -
  let ?B = "0x61 # replicate 255 (0xAA :: u8)"
  have a: "read_arg mem_fault_mid 0x1000 1 \<noteq> 0" using fault_mid_args(2) by simp
  have f: "fst (bpf_probe_read_user_str mem_fault_mid (?B[1 := 0x20]) 2 253
                  (read_arg mem_fault_mid 0x1000 1)) \<le> 0"
    using fault_mid_args(2) by (simp add: read_str_eq str_read_fault fault_mid_strs EFAULT_def)
  from fill_argv_failed_read_continues
         [of 1 1 256 mem_fault_mid "0x1000" "?B[1 := 0x20]" ?B 2] a f
  show ?thesis by (simp add: MAX_ARGS_def numeral_2_eq_2)
qed

text \<open>
  Claim C3 as it is stated fails: the loop does not stop at a failed read. With the
  arguments \<^verbatim>\<open>a\<close>, a pointer into unmapped memory, and \<^verbatim>\<open>b\<close>, the read of argument 1 returns
  \<^verbatim>\<open>-EFAULT\<close>, the loop still runs to index 3, and the buffer holds \<^verbatim>\<open>a\<close>, two spaces and
  \<^verbatim>\<open>b\<close>: the pointer of argument 2 was read and its bytes appended after the failure.
\<close>

theorem fill_argv_failed_read_counterexample:
  "read_arg mem_fault_mid 0x1000 1 = 0x9000 \<and>
   fst (bpf_probe_read_user_str mem_fault_mid (replicate 256 0xAA) 2 253 0x9000) = - EFAULT \<and>
   fst (fill_argv_loop mem_fault_mid 0x1000 256 0 (replicate 256 0xAA) 0) = 3 \<and>
   take 5 (fill_argv mem_fault_mid (replicate 256 0xAA) 256 0x1000) = bytes_of ''a  b'' @ [0]"
proof -
  from fault_mid_run obtain b' where
    run: "fill_argv_loop mem_fault_mid 0x1000 256 0 (replicate 256 0xAA) 0 =
            (Suc (Suc (Suc 0)), b', int (length [0x61 :: u8, 0x20, 0x20, 0x62]))"
    and tk: "take (length [0x61 :: u8, 0x20, 0x20, 0x62]) b' = [0x61, 0x20, 0x20, 0x62]"
    and l: "length b' = 256"
    by blast
  have five: "(5 :: nat) = Suc (length [0x61 :: u8, 0x20, 0x20, 0x62])" by simp
  from fill_argv_content [OF run tk] l
  have "take 5 (fill_argv mem_fault_mid (replicate 256 0xAA) 256 0x1000) =
          [0x61, 0x20, 0x20, 0x62, 0]" unfolding five by simp
  moreover have "fst (bpf_probe_read_user_str mem_fault_mid (replicate 256 0xAA) 2 253 0x9000) =
                   - EFAULT"
    by (simp add: read_str_eq str_read_fault fault_mid_strs)
  ultimately show ?thesis using run fault_mid_args(2) by (simp add: bytes_of_def)
qed

text \<open>
  Claim C4 on the code. For a single argument of 300 bytes \<^verbatim>\<open>fill_argv\<close> asks the helper
  for \<open>remaining = 255\<close> bytes, the NUL included, so the buffer holds the first 254 bytes
  of the argument and the NUL at index 254, not 255 bytes and a NUL at index 255.
\<close>

theorem fill_argv_long_argument:
  "user_cstr mem_long 0x2000 (replicate 300 0x41) \<and>
   read_arg mem_long 0x1000 0 = 0x2000 \<and> read_arg mem_long 0x1000 1 = 0 \<and>
   take 255 (fill_argv mem_long (replicate 256 0xAA) 256 0x1000) = replicate 254 0x41 @ [0]"
proof -
  let ?m = mem_long and ?buf = "replicate 256 (0xAA :: u8)"
  have "str_read ?m (nat (256 - int (length ([] :: u8 list)) - 1)) (read_arg ?m 0x1000 0) =
          Some (replicate 254 0x41)"
    using user_cstr_str_read [OF long_str, of 255] by (simp add: long_args)
  from loop_step_str [of 0 256 ?buf "[]" ?m "0x1000" "[]" "replicate 254 0x41", OF _ _ _ _ this]
  obtain b1 where s1: "fill_argv_loop ?m 0x1000 256 0 ?buf 0 =
                         fill_argv_loop ?m 0x1000 256 (Suc 0) b1
                           (int (length (replicate 254 (0x41 :: u8))))"
    and t1: "take (length (replicate 254 (0x41 :: u8))) b1 = replicate 254 0x41"
    and l1: "length b1 = 256"
    by (auto simp: MAX_ARGS_def long_args)
  from fill_argv_loop_null [OF long_args(2), of 256 b1] s1
  have run: "fill_argv_loop ?m 0x1000 256 0 ?buf 0 =
               (Suc 0, b1, int (length (replicate 254 (0x41 :: u8))))"
    by simp
  from fill_argv_content [OF run t1] l1
  have "take 255 (fill_argv ?m ?buf 256 0x1000) = replicate 254 0x41 @ [0]" by simp
  with long_str long_args show ?thesis by simp
qed

text \<open>
  Claim C5, as amended. With a buffer of 256 bytes and \<^verbatim>\<open>len = 256\<close>, the buffer \<^verbatim>\<open>fill_argv\<close>
  leaves has a NUL byte at an index below 256, for every user memory and every argv
  pointer. When the first pointer slot reads as null (an empty array, or a faulting
  read), the first byte of the buffer is 0; this covers a null argv pointer when
  address 0 is not mapped.
\<close>

theorem fill_argv_nul_terminated:
  assumes "length buf = 256"
  shows "(\<exists>j<256. fill_argv mem buf 256 argv_ptr ! j = 0) \<and>
         (read_arg mem argv_ptr 0 = 0 \<longrightarrow> fill_argv mem buf 256 argv_ptr ! 0 = 0) \<and>
         (mem 0 = None \<longrightarrow> fill_argv mem buf 256 0 ! 0 = 0)"
proof (intro conjI impI)
  from assms have len: "(0::int) < 256" "256 \<le> int (length buf)" by simp_all
  from fill_argv_final [OF len, of mem argv_ptr] obtain i' b' p' where
    out: "fill_argv mem buf 256 argv_ptr = b'[nat p' := 0]" and
    p: "0 \<le> p'" "p' < 256" and l: "length b' = length buf"
    by metis
  from p l assms have "nat p' < 256" "b'[nat p' := 0] ! nat p' = 0" by simp_all
  with out show "\<exists>j<256. fill_argv mem buf 256 argv_ptr ! j = 0" by auto
next
  assume "read_arg mem argv_ptr 0 = 0"
  with assms show "fill_argv mem buf 256 argv_ptr ! 0 = 0"
    by (simp add: fill_argv_null_first)
next
  assume "mem 0 = None"
  then have "read_arg mem 0 0 = 0" by (simp add: read_arg_fault)
  with assms show "fill_argv mem buf 256 0 ! 0 = 0"
    by (simp add: fill_argv_null_first)
qed

theorem fill_argv_nul_terminated_witness:
  "length (replicate 256 (0xAA :: u8)) = 256 \<and>
   (\<exists>j<256. fill_argv mem_ls (replicate 256 0xAA) 256 0x1000 ! j = 0) \<and>
   read_arg mem_no_args 0x1000 0 = 0 \<and>
   fill_argv mem_no_args (replicate 256 0xAA) 256 0x1000 ! 0 = 0 \<and>
   mem_no_args 0 = None \<and>
   fill_argv mem_no_args (replicate 256 0xAA) 256 0 ! 0 = 0"
proof -
  have l: "length (replicate 256 (0xAA :: u8)) = 256" by simp
  have a: "read_arg mem_no_args 0x1000 0 = 0" by (simp add: mem_no_args_def mem_eval)
  have n: "mem_no_args 0 = None" by (simp add: mem_no_args_def mem_eval)
  from fill_argv_nul_terminated [OF l, of mem_ls "0x1000"]
       fill_argv_nul_terminated [OF l, of mem_no_args "0x1000"]
       fill_argv_nul_terminated [OF l, of mem_no_args 0] l a n
  show ?thesis by simp
qed

text \<open>
  Claim C5 as it is stated fails for a null argv pointer: \<^verbatim>\<open>fill_argv\<close> does not test the
  pointer, it reads the first slot at address 0. Where that page is mapped and holds an
  argument array with the one argument \<^verbatim>\<open>x\<close>, the buffer starts with \<^verbatim>\<open>x\<close> and a NUL: its
  first byte is not 0.
\<close>

theorem fill_argv_null_pointer_counterexample:
  "mem_null_mapped 0 \<noteq> None \<and>
   take 2 (fill_argv mem_null_mapped (replicate 256 0xAA) 256 0) = bytes_of ''x'' @ [0] \<and>
   fill_argv mem_null_mapped (replicate 256 0xAA) 256 0 ! 0 \<noteq> 0"
proof -
  from fill_argv_joined(2) [of mem_null_mapped 0 "[[0x78]]" "Suc 0" 256 "replicate 256 0xAA"]
       null_mapped_mem(2,3)
  have t: "take 2 (fill_argv mem_null_mapped (replicate 256 0xAA) 256 0) = [0x78, 0]"
    by (simp add: MAX_ARGS_def numeral_2_eq_2 del: user_argv.simps)
  then have "take 2 (fill_argv mem_null_mapped (replicate 256 0xAA) 256 0) ! 0 = 0x78" by simp
  then have "fill_argv mem_null_mapped (replicate 256 0xAA) 256 0 ! 0 = 0x78" by simp
  with t null_mapped_mem(1) show ?thesis by (simp add: bytes_of_def)
qed

text \<open>
  Claim C6 on the code. For seventeen arguments whose first sixteen, joined by single
  spaces, take exactly 255 bytes (the most a buffer of 256 bytes holds before its NUL),
  the loop ends at index 16, but the last read is given \<open>remaining = 225\<close> bytes for an
  argument of 225 bytes: the buffer holds the first 254 bytes of the joined arguments and
  the NUL at index 254, so the last byte of argument 15 is lost.
\<close>

theorem fill_argv_sixteen_exact_fit:
  "user_argv mem_exact 0x1000 0 args_exact \<and> length args_exact = 17 \<and>
   join_args (take 16 args_exact) =
     bytes_of ''a a a a a a a a a a a a a a a '' @ replicate 225 0x78 \<and>
   length (join_args (take 16 args_exact)) = 255 \<and>
   fst (fill_argv_loop mem_exact 0x1000 256 0 (replicate 256 0xAA) 0) = 16 \<and>
   take 255 (fill_argv mem_exact (replicate 256 0xAA) 256 0x1000) =
     bytes_of ''a a a a a a a a a a a a a a a '' @ replicate 224 0x78 @ [0]"
proof -
  let ?m = mem_exact and ?buf = "replicate 256 (0xAA :: u8)"
  define c where "c = join_args (take 15 args_exact)"
  define t where "t = replicate 224 (0x78 :: u8)"
  have lc: "length c = 29" by (simp add: c_def exact_join bytes_of_def)
  have lt: "length t = 224" by (simp add: t_def)
  have c0: "join_args (take 0 args_exact) = []" by simp
  have "\<exists>b'. fill_argv_loop ?m 0x1000 256 0 ?buf (int (length (join_args (take 0 args_exact)))) =
               fill_argv_loop ?m 0x1000 256 15 b' (int (length (join_args (take 15 args_exact)))) \<and>
             take (length (join_args (take 15 args_exact))) b' = join_args (take 15 args_exact) \<and>
             length b' = length ?buf"
    by (rule loop_joined_steps [OF exact_argv])
       (simp_all add: MAX_ARGS_def exact_join(1) bytes_of_def, simp add: args_exact_def)
  then obtain b15 where
    s1: "fill_argv_loop ?m 0x1000 256 0 ?buf 0 = fill_argv_loop ?m 0x1000 256 15 b15 (int (length c))"
    and t15: "take (length c) b15 = c" and l15: "length b15 = 256"
    unfolding c0 c_def [symmetric] by auto
  have rd: "str_read ?m (nat (256 - int (length (c @ [0x20])) - 1)) (read_arg ?m 0x1000 15) =
              Some t"
    using user_cstr_str_read [OF exact_str, of 225] by (simp add: exact_args lc t_def)
  have "\<exists>buf2. fill_argv_loop ?m 0x1000 256 15 b15 (int (length c)) =
                 fill_argv_loop ?m 0x1000 256 (Suc 15) buf2 (int (length ((c @ [0x20]) @ t))) \<and>
               take (length ((c @ [0x20]) @ t)) buf2 = (c @ [0x20]) @ t \<and>
               length buf2 = length b15"
    by (rule loop_step_str [OF _ _ t15 _ rd]) (simp_all add: MAX_ARGS_def l15 exact_args lc)
  then obtain b16 where
    s2: "fill_argv_loop ?m 0x1000 256 15 b15 (int (length c)) =
           fill_argv_loop ?m 0x1000 256 (Suc 15) b16 (int (length ((c @ [0x20]) @ t)))"
    and t16: "take (length ((c @ [0x20]) @ t)) b16 = (c @ [0x20]) @ t"
    and l16: "length b16 = 256"
    using l15 by auto
  have m: "Suc 15 = MAX_ARGS" by (simp add: MAX_ARGS_def)
  from s1 s2 have run: "fill_argv_loop ?m 0x1000 256 0 ?buf 0 =
                          (MAX_ARGS, b16, int (length ((c @ [0x20]) @ t)))"
    unfolding m fill_argv_loop_max by simp
  have "take (Suc (length ((c @ [0x20]) @ t))) (fill_argv ?m ?buf 256 0x1000) =
          ((c @ [0x20]) @ t) @ [0]"
    by (rule fill_argv_content [OF run t16]) (simp_all add: lc lt l16)
  then have out: "take 255 (fill_argv ?m ?buf 256 0x1000) = c @ [0x20] @ t @ [0]"
    by (simp add: lc lt)
  have cc: "c @ [0x20] = bytes_of ''a a a a a a a a a a a a a a a ''"
    by (simp add: c_def exact_join bytes_of_def)
  from out cc have "take 255 (fill_argv ?m ?buf 256 0x1000) =
                      bytes_of ''a a a a a a a a a a a a a a a '' @ replicate 224 0x78 @ [0]"
    by (simp add: t_def)
  moreover have "length args_exact = 17" by (simp add: args_exact_def)
  moreover have "length (join_args (take 16 args_exact)) = 255"
    by (simp add: exact_join bytes_of_def)
  moreover from run have "fst (fill_argv_loop ?m 0x1000 256 0 ?buf 0) = 16"
    by (simp add: MAX_ARGS_def)
  ultimately show ?thesis using exact_argv exact_join(2) by blast
qed

text \<open>
  Claim C7. Both handlers return 0 in every case. When the reservation returns the null
  pointer the ring is left as it was; when it returns a slot, the ring gains exactly
  the record \<^verbatim>\<open>fill_event\<close> makes of that slot.
\<close>

theorem handlers_reserve_then_submit:
  "fst (trace_execve k ctx ring) = 0 \<and> fst (trace_execveat k ctx ring) = 0 \<and>
   (bpf_ringbuf_reserve k = None \<longrightarrow>
      snd (trace_execve k ctx ring) = ring \<and> snd (trace_execveat k ctx ring) = ring) \<and>
   (\<forall>e. bpf_ringbuf_reserve k = Some e \<longrightarrow>
      snd (trace_execve k ctx ring) = ring @ [fill_event k e (args ctx ! 0) (args ctx ! 1)] \<and>
      snd (trace_execveat k ctx ring) = ring @ [fill_event k e (args ctx ! 1) (args ctx ! 2)])"
  by (cases "bpf_ringbuf_reserve k")
     (simp_all add: trace_execve_def trace_execveat_def bpf_ringbuf_submit_def)

theorem handlers_reserve_then_submit_witness:
  "bpf_ringbuf_reserve (kernel_on mem_ls None) = None \<and>
   trace_execve (kernel_on mem_ls None) (sys_enter [0x3000, 0x1000, 0, 0, 0, 0]) [] = (0, []) \<and>
   trace_execveat (kernel_on mem_ls None)
     (sys_enter [0xFFFFFFFFFFFFFF9C, 0x3010, 0x1000, 0, 0, 0]) [] = (0, []) \<and>
   bpf_ringbuf_reserve (kernel_on mem_ls (Some (stale_slot 0xAA))) = Some (stale_slot 0xAA) \<and>
   trace_execve (kernel_on mem_ls (Some (stale_slot 0xAA)))
     (sys_enter [0x3000, 0x1000, 0, 0, 0, 0]) [] =
     (0, [fill_event (kernel_on mem_ls (Some (stale_slot 0xAA))) (stale_slot 0xAA) 0x3000 0x1000]) \<and>
   trace_execveat (kernel_on mem_ls (Some (stale_slot 0xAA)))
     (sys_enter [0xFFFFFFFFFFFFFF9C, 0x3010, 0x1000, 0, 0, 0]) [] =
     (0, [fill_event (kernel_on mem_ls (Some (stale_slot 0xAA))) (stale_slot 0xAA) 0x3010 0x1000])"
proof -
  have none: "bpf_ringbuf_reserve (kernel_on mem_ls None) = None"
    by (simp add: bpf_ringbuf_reserve_def kernel_on_def)
  have some: "bpf_ringbuf_reserve (kernel_on mem_ls (Some (stale_slot 0xAA))) = Some (stale_slot 0xAA)"
    by (simp add: bpf_ringbuf_reserve_def kernel_on_def)
  from handlers_reserve_then_submit [of "kernel_on mem_ls None" "sys_enter [0x3000, 0x1000, 0, 0, 0, 0]" "[]"]
       handlers_reserve_then_submit [of "kernel_on mem_ls None"
          "sys_enter [0xFFFFFFFFFFFFFF9C, 0x3010, 0x1000, 0, 0, 0]" "[]"]
       handlers_reserve_then_submit [of "kernel_on mem_ls (Some (stale_slot 0xAA))"
          "sys_enter [0x3000, 0x1000, 0, 0, 0, 0]" "[]"]
       handlers_reserve_then_submit [of "kernel_on mem_ls (Some (stale_slot 0xAA))"
          "sys_enter [0xFFFFFFFFFFFFFF9C, 0x3010, 0x1000, 0, 0, 0]" "[]"]
       none some
  show ?thesis by (simp add: prod_eq_iff sys_enter_def)
qed

text \<open>
  Claim C8. After a successful reservation the execve handler fills the record from
  \<^verbatim>\<open>ctx->args[0]\<close> (path) and \<^verbatim>\<open>ctx->args[1]\<close> (argv), the execveat handler from
  \<^verbatim>\<open>ctx->args[1]\<close> and \<^verbatim>\<open>ctx->args[2]\<close>. So the file name the execveat record carries is
  the string user memory holds at the pathname argument (its first 255 bytes),
  whatever \<^verbatim>\<open>ctx->args[0]\<close>, the directory descriptor, is.
\<close>

theorem handlers_argument_positions:
  assumes "bpf_ringbuf_reserve k = Some e"
  shows "snd (trace_execve k ctx ring) =
           ring @ [fill_event k e (args ctx ! 0) (args ctx ! 1)] \<and>
         snd (trace_execveat k ctx ring) =
           ring @ [fill_event k e (args ctx ! 1) (args ctx ! 2)] \<and>
         (\<forall>s. user_cstr (umem k) (args ctx ! 0) s \<longrightarrow>
            c_string (filename (last (snd (trace_execve k ctx ring)))) = take 255 s) \<and>
         (\<forall>s. user_cstr (umem k) (args ctx ! 1) s \<longrightarrow>
            c_string (filename (last (snd (trace_execveat k ctx ring)))) = take 255 s) \<and>
         argv (last (snd (trace_execve k ctx ring))) =
           fill_argv (umem k) (argv e) 256 (args ctx ! 1) \<and>
         argv (last (snd (trace_execveat k ctx ring))) =
           fill_argv (umem k) (argv e) 256 (args ctx ! 2)"
  using assms
  by (simp add: trace_execve_def trace_execveat_def bpf_ringbuf_submit_def
        filename_of_user_cstr fill_event_fields(7) TRIPWIRE_ARGV_LEN_def)

theorem handlers_argument_positions_witness:
  "bpf_ringbuf_reserve (kernel_on mem_ls (Some (stale_slot 0xAA))) = Some (stale_slot 0xAA) \<and>
   user_cstr (umem (kernel_on mem_ls (Some (stale_slot 0xAA)))) 0x3000 (bytes_of ''/bin/ls'') \<and>
   c_string (filename (last (snd (trace_execve (kernel_on mem_ls (Some (stale_slot 0xAA)))
      (sys_enter [0x3000, 0x1000, 0, 0, 0, 0]) [])))) = bytes_of ''/bin/ls'' \<and>
   user_cstr (umem (kernel_on mem_ls (Some (stale_slot 0xAA)))) 0x3010 (bytes_of ''./prog'') \<and>
   c_string (filename (last (snd (trace_execveat (kernel_on mem_ls (Some (stale_slot 0xAA)))
      (sys_enter [0xFFFFFFFFFFFFFF9C, 0x3010, 0x1000, 0, 0, 0]) [])))) = bytes_of ''./prog''"
proof -
  let ?k = "kernel_on mem_ls (Some (stale_slot 0xAA))"
  have some: "bpf_ringbuf_reserve ?k = Some (stale_slot 0xAA)"
    by (simp add: bpf_ringbuf_reserve_def kernel_on_def)
  have m: "umem ?k = mem_ls" by (simp add: kernel_on_def)
  have s1: "user_cstr mem_ls 0x3000 (bytes_of ''/bin/ls'')"
    by (simp add: mem_ls_def mem_eval)
  have s2: "user_cstr mem_ls 0x3010 (bytes_of ''./prog'')"
    by (simp add: mem_ls_def mem_eval)
  have t: "take 255 (bytes_of ''/bin/ls'') = bytes_of ''/bin/ls''"
      "take 255 (bytes_of ''./prog'') = bytes_of ''./prog''"
    by (simp_all add: bytes_of_def)
  note ve = handlers_argument_positions [OF some, of "sys_enter [0x3000, 0x1000, 0, 0, 0, 0]" "[]"]
  note at = handlers_argument_positions [OF some,
              of "sys_enter [0xFFFFFFFFFFFFFF9C, 0x3010, 0x1000, 0, 0, 0]" "[]"]
  from ve [THEN conjunct2, THEN conjunct2, THEN conjunct1, rule_format,
           of "bytes_of ''/bin/ls''"] s1 t
  have f1: "c_string (filename (last (snd (trace_execve ?k
            (sys_enter [0x3000, 0x1000, 0, 0, 0, 0]) [])))) = bytes_of ''/bin/ls''"
    by (simp add: m sys_enter_def)
  from at [THEN conjunct2, THEN conjunct2, THEN conjunct2, THEN conjunct1, rule_format,
           of "bytes_of ''./prog''"] s2 t
  have f2: "c_string (filename (last (snd (trace_execveat ?k
            (sys_enter [0xFFFFFFFFFFFFFF9C, 0x3010, 0x1000, 0, 0, 0]) [])))) = bytes_of ''./prog''"
    by (simp add: m sys_enter_def)
  from f1 f2 s1 s2 some show ?thesis by (simp add: m)
qed

text \<open>
  Claim C9. \<^verbatim>\<open>struct exec_event\<close> is laid out with \<^verbatim>\<open>pid\<close> at 0, \<^verbatim>\<open>ppid\<close> at 4, \<^verbatim>\<open>uid\<close> at 8,
  \<^verbatim>\<open>gid\<close> at 12, \<^verbatim>\<open>comm\<close> at 16..31, \<^verbatim>\<open>filename\<close> at 32..287 and \<^verbatim>\<open>argv\<close> at 288..543; its
  size is 544 bytes, which is the sum of the sizes of its members, so there is no
  padding.
\<close>

theorem exec_event_layout:
  "member_extents 0 exec_event_members =
     [(''pid'', 0, 3), (''ppid'', 4, 7), (''uid'', 8, 11), (''gid'', 12, 15),
      (''comm'', 16, 31), (''filename'', 32, 287), (''argv'', 288, 543)] \<and>
   struct_size exec_event_members = 544 \<and>
   sum_list (map (sizeof \<circ> snd) exec_event_members) = struct_size exec_event_members"
  by (simp add: exec_event_members_def struct_size_def struct_align_def align_up_def
        TRIPWIRE_COMM_LEN_def TRIPWIRE_PATH_LEN_def TRIPWIRE_ARGV_LEN_def)




end
